theory Spec2Isabelle
  imports Main "HOL-Library.Word"
begin

unbundle bit_operations_syntax

section \<open>The multigenerational lru of include/linux/mm\_inline.h\<close>

text \<open>
  The header include/linux/mm\_inline.h is embedded for a 64-bit kernel: \<open>unsigned long\<close>
  is \<open>64 word\<close>, \<open>int\<close> is a mathematical integer that is read back from a word
  through its low 32 bits. The embedding is of the
  \<open>CONFIG_LRU_GEN\<close> branch of the header, in a build with \<open>CONFIG_DEBUG_VM\<close>: every
  \<open>VM_BUG_ON\<close> whose condition holds stops the function with the value \<open>Inl\<close> of a
  \<open>bug\<close> naming the assertion. The code runs in one thread: the word that a
  \<open>cmpxchg\<close> loop reads is the word it replaces, so each loop body runs once.
\<close>

subsection \<open>Constants declared outside the header\<close>

text \<open>
  The header uses constants of \<open>mmzone.h\<close>, \<open>page-flags.h\<close> and
  \<open>page-flags-layout.h\<close> that it does not declare. They are the fields of a
  \<open>layout\<close>, which every function takes as its first argument.
\<close>

record layout =
  MAX_NR_GENS :: nat
  LRU_GEN_WIDTH :: nat
  LRU_GEN_PGOFF :: nat
  LRU_USAGE_WIDTH :: nat
  LRU_USAGE_PGOFF :: nat
  LRU_TIER_FLAGS :: "64 word"
  PG_referenced :: nat
  PG_dirty :: nat
  PG_active :: nat
  PG_workingset :: nat
  PG_unevictable :: nat
  PG_swapbacked :: nat
  PG_swapcache :: nat
  PG_reclaim :: nat
  PG_writeback :: nat
  LRU_ACTIVE :: nat
  LRU_FILE :: nat

definition BIT :: "nat \<Rightarrow> 64 word" where
  "BIT n = push_bit n 1"

text \<open>
  Modelled from the spec: the macros \<open>LRU_GEN_MASK\<close> and \<open>LRU_USAGE_MASK\<close> are not
  declared in the header. The spec describes the state word as one fixed-width value with
  named bit ranges; a range is \<open>width\<close> one-bits shifted to its offset.
\<close>

definition LRU_GEN_MASK :: "layout \<Rightarrow> 64 word" where
  "LRU_GEN_MASK L = push_bit (LRU_GEN_PGOFF L) (mask (LRU_GEN_WIDTH L))"

definition LRU_USAGE_MASK :: "layout \<Rightarrow> 64 word" where
  "LRU_USAGE_MASK L = push_bit (LRU_USAGE_PGOFF L) (mask (LRU_USAGE_WIDTH L))"

subsection \<open>Pages and lruvecs\<close>

text \<open>
  A page has its flags word; \<open>page_zonenum\<close> and \<open>thp_nr_pages\<close> are declared outside
  the header and are attributes of the page that no function here writes. \<open>page_id\<close>
  stands for the address of the page, which is what the lists link.
\<close>

record page =
  page_id :: nat
  flags :: "64 word"
  page_zonenum :: nat
  thp_nr_pages :: int

text \<open>
  \<open>struct lrugen\<close>: the arrays indexed by generation, type and zone are functions on
  triples, \<open>min_seq\<close> and \<open>enabled\<close> are indexed by type (0 anon, 1 file). A list is the
  sequence of the pages linked on it, head first.
\<close>

record lrugen =
  max_seq :: "64 word"
  min_seq :: "nat \<Rightarrow> 64 word"
  enabled :: "nat \<Rightarrow> bool"
  sizes :: "nat \<times> nat \<times> nat \<Rightarrow> int"
  lrugen_lists :: "nat \<times> nat \<times> nat \<Rightarrow> nat list"

text \<open>
  \<open>struct lruvec\<close> holds the \<open>lrugen\<close> in \<open>evictable\<close>. The three counters that
  \<open>update_lru_size\<close> forwards to are outside the header; \<open>lru_size_updates\<close> records
  each call of \<open>update_lru_size\<close> (list, zone, number of pages), latest last.
\<close>

record lruvec =
  evictable :: lrugen
  lru_size_updates :: "(nat \<times> nat \<times> int) list"

datatype bug =
    BUG_max_seq_zero
  | BUG_gen_range
  | BUG_old_gen_range
  | BUG_new_gen_range
  | BUG_both_untracked
  | BUG_active_to_inactive
  | BUG_page_tracked
  | BUG_page_active
  | BUG_page_unevictable

subsection \<open>Page flags\<close>

definition PageActive :: "layout \<Rightarrow> page \<Rightarrow> bool" where
  "PageActive L p = bit (flags p) (PG_active L)"

definition PageUnevictable :: "layout \<Rightarrow> page \<Rightarrow> bool" where
  "PageUnevictable L p = bit (flags p) (PG_unevictable L)"

definition PageSwapBacked :: "layout \<Rightarrow> page \<Rightarrow> bool" where
  "PageSwapBacked L p = bit (flags p) (PG_swapbacked L)"

definition PageSwapCache :: "layout \<Rightarrow> page \<Rightarrow> bool" where
  "PageSwapCache L p = bit (flags p) (PG_swapcache L)"

definition PageReclaim :: "layout \<Rightarrow> page \<Rightarrow> bool" where
  "PageReclaim L p = bit (flags p) (PG_reclaim L)"

definition PageDirty :: "layout \<Rightarrow> page \<Rightarrow> bool" where
  "PageDirty L p = bit (flags p) (PG_dirty L)"

definition PageWriteback :: "layout \<Rightarrow> page \<Rightarrow> bool" where
  "PageWriteback L p = bit (flags p) (PG_writeback L)"

definition PageReferenced :: "layout \<Rightarrow> page \<Rightarrow> bool" where
  "PageReferenced L p = bit (flags p) (PG_referenced L)"

definition PageWorkingset :: "layout \<Rightarrow> page \<Rightarrow> bool" where
  "PageWorkingset L p = bit (flags p) (PG_workingset L)"

text \<open>\<open>page_is_file_lru\<close> returns \<open>!PageSwapBacked(page)\<close>, an \<open>int\<close> used as an index.\<close>

definition page_is_file_lru :: "layout \<Rightarrow> page \<Rightarrow> nat" where
  "page_is_file_lru L p = (if PageSwapBacked L p then 0 else 1)"

definition update_lru_size :: "lruvec \<Rightarrow> nat \<Rightarrow> nat \<Rightarrow> int \<Rightarrow> lruvec" where
  "update_lru_size lv lru zid nr =
     lv\<lparr>lru_size_updates := lru_size_updates lv @ [(lru, zid, nr)]\<rparr>"

subsection \<open>Generations\<close>

definition lru_gen_from_seq :: "layout \<Rightarrow> 64 word \<Rightarrow> int" where
  "lru_gen_from_seq L seq = int (unat seq mod MAX_NR_GENS L)"

text \<open>
  \<open>MAX_NR_GENS\<close> is compared with generations as an \<open>int\<close>. The two assertions of
  \<open>lru_gen_is_active\<close> come first, in the order of the code.
\<close>

definition lru_gen_is_active :: "layout \<Rightarrow> lruvec \<Rightarrow> int \<Rightarrow> bug + bool" where
  "lru_gen_is_active L lv gen =
     (let max_seq = max_seq (evictable lv) in
      if max_seq = 0 then Inl BUG_max_seq_zero
      else if gen \<ge> int (MAX_NR_GENS L) then Inl BUG_gen_range
      else Inr (gen = lru_gen_from_seq L max_seq \<or> gen = lru_gen_from_seq L (max_seq - 1)))"

definition sizes_add :: "lruvec \<Rightarrow> nat \<times> nat \<times> nat \<Rightarrow> int \<Rightarrow> lruvec" where
  "sizes_add lv k d =
     lv\<lparr>evictable := (evictable lv)\<lparr>sizes := (sizes (evictable lv))(k := sizes (evictable lv) k + d)\<rparr>\<rparr>"

definition lru_gen_update_size :: "layout \<Rightarrow> page \<Rightarrow> lruvec \<Rightarrow> int \<Rightarrow> int \<Rightarrow> bug + lruvec" where
  "lru_gen_update_size L p lv old_gen new_gen =
     (let file = page_is_file_lru L p;
          zone = page_zonenum p;
          delta = thp_nr_pages p;
          lru = LRU_FILE L * file
      in
      if old_gen \<noteq> - 1 \<and> old_gen \<ge> int (MAX_NR_GENS L) then Inl BUG_old_gen_range
      else if new_gen \<noteq> - 1 \<and> new_gen \<ge> int (MAX_NR_GENS L) then Inl BUG_new_gen_range
      else if old_gen = - 1 \<and> new_gen = - 1 then Inl BUG_both_untracked
      else
        let lv1 = (if old_gen \<ge> 0 then sizes_add lv (nat old_gen, file, zone) (- delta) else lv);
            lv2 = (if new_gen \<ge> 0 then sizes_add lv1 (nat new_gen, file, zone) delta else lv1)
        in
        if old_gen < 0 then
          (case lru_gen_is_active L lv2 new_gen of
             Inl b \<Rightarrow> Inl b
           | Inr a \<Rightarrow> Inr (update_lru_size lv2 (if a then lru + LRU_ACTIVE L else lru) zone delta))
        else if new_gen < 0 then
          (case lru_gen_is_active L lv2 old_gen of
             Inl b \<Rightarrow> Inl b
           | Inr a \<Rightarrow> Inr (update_lru_size lv2 (if a then lru + LRU_ACTIVE L else lru) zone (- delta)))
        else
          (case lru_gen_is_active L lv2 old_gen of
             Inl b \<Rightarrow> Inl b
           | Inr old_active \<Rightarrow>
              (case lru_gen_is_active L lv2 new_gen of
                 Inl b \<Rightarrow> Inl b
               | Inr new_active \<Rightarrow>
                  (let lv3 = (if \<not> old_active \<and> new_active
                              then update_lru_size (update_lru_size lv2 lru zone (- delta))
                                     (lru + LRU_ACTIVE L) zone delta
                              else lv2)
                   in if old_active \<and> \<not> new_active then Inl BUG_active_to_inactive
                      else Inr lv3))))"

subsection \<open>Adding and deleting a page\<close>

text \<open>Lines 190 to 197 of \<open>lru_gen_addition\<close>: the generation a page is added to.\<close>

definition lru_gen_addition_gen :: "layout \<Rightarrow> page \<Rightarrow> lruvec \<Rightarrow> int" where
  "lru_gen_addition_gen L p lv =
     (let file = page_is_file_lru L p; lrugen = evictable lv in
      if PageActive L p then lru_gen_from_seq L (max_seq lrugen)
      else if (file = 0 \<and> \<not> PageSwapCache L p) \<or>
              (PageReclaim L p \<and> (PageDirty L p \<or> PageWriteback L p)) \<or>
              (\<not> PageReferenced L p \<and> PageWorkingset L p)
      then lru_gen_from_seq L (min_seq lrugen file + 1)
      else lru_gen_from_seq L (min_seq lrugen file))"

text \<open>Lines 203 to 207: the word that the \<open>cmpxchg\<close> of \<open>lru_gen_addition\<close> writes.\<close>

definition lru_gen_addition_flags :: "layout \<Rightarrow> int \<Rightarrow> 64 word \<Rightarrow> 64 word" where
  "lru_gen_addition_flags L gen old_flags =
     (let new_flags = (old_flags AND NOT (LRU_GEN_MASK L OR BIT (PG_active L))) OR
                      push_bit (LRU_GEN_PGOFF L) (word_of_int gen + 1)
      in if old_flags AND BIT (PG_referenced L) = 0
         then new_flags AND NOT (LRU_USAGE_MASK L OR LRU_TIER_FLAGS L)
         else new_flags)"

definition list_add :: "nat \<Rightarrow> nat \<times> nat \<times> nat \<Rightarrow> lruvec \<Rightarrow> lruvec" where
  "list_add pid k lv =
     lv\<lparr>evictable := (evictable lv)\<lparr>lrugen_lists :=
        (lrugen_lists (evictable lv))(k := pid # lrugen_lists (evictable lv) k)\<rparr>\<rparr>"

definition list_add_tail :: "nat \<Rightarrow> nat \<times> nat \<times> nat \<Rightarrow> lruvec \<Rightarrow> lruvec" where
  "list_add_tail pid k lv =
     lv\<lparr>evictable := (evictable lv)\<lparr>lrugen_lists :=
        (lrugen_lists (evictable lv))(k := lrugen_lists (evictable lv) k @ [pid])\<rparr>\<rparr>"

text \<open>\<open>list_del\<close> unlinks the page from the list it is on, whichever it is.\<close>

definition list_del :: "nat \<Rightarrow> lruvec \<Rightarrow> lruvec" where
  "list_del pid lv =
     lv\<lparr>evictable := (evictable lv)\<lparr>lrugen_lists :=
        (\<lambda>k. remove1 pid (lrugen_lists (evictable lv) k))\<rparr>\<rparr>"

definition lru_gen_addition :: "layout \<Rightarrow> page \<Rightarrow> lruvec \<Rightarrow> bool \<Rightarrow> bug + (bool \<times> page \<times> lruvec)" where
  "lru_gen_addition L p lv front =
     (let file = page_is_file_lru L p;
          zone = page_zonenum p;
          lrugen = evictable lv
      in
      if PageUnevictable L p \<or> \<not> enabled lrugen file then Inr (False, p, lv)
      else
        let gen = lru_gen_addition_gen L p lv;
            old_flags = flags p
        in
        if old_flags AND LRU_GEN_MASK L \<noteq> 0 then Inl BUG_page_tracked
        else
          let p' = p\<lparr>flags := lru_gen_addition_flags L gen old_flags\<rparr> in
          (case lru_gen_update_size L p' lv (- 1) gen of
             Inl b \<Rightarrow> Inl b
           | Inr lv' \<Rightarrow>
               Inr (True, p',
                    if front then list_add (page_id p') (nat gen, file, zone) lv'
                    else list_add_tail (page_id p') (nat gen, file, zone) lv')))"

text \<open>
  The generation stored in a flags word, as \<open>page_lru_gen\<close> and \<open>lru_gen_deletion\<close>
  compute it: the field minus one in \<open>unsigned long\<close>, converted to \<open>int\<close>.
\<close>

definition flags_lru_gen :: "layout \<Rightarrow> 64 word \<Rightarrow> int" where
  "flags_lru_gen L w =
     sint (ucast (drop_bit (LRU_GEN_PGOFF L) (w AND LRU_GEN_MASK L) - 1) :: 32 word)"

definition page_lru_gen :: "layout \<Rightarrow> page \<Rightarrow> int" where
  "page_lru_gen L p = flags_lru_gen L (flags p)"

definition lru_gen_deletion :: "layout \<Rightarrow> page \<Rightarrow> lruvec \<Rightarrow> bug + (bool \<times> page \<times> lruvec)" where
  "lru_gen_deletion L p lv =
     (let old_flags = flags p in
      if old_flags AND LRU_GEN_MASK L = 0 then Inr (False, p, lv)
      else if PageActive L p then Inl BUG_page_active
      else if PageUnevictable L p then Inl BUG_page_unevictable
      else
        let gen = flags_lru_gen L old_flags in
        (case lru_gen_is_active L lv gen of
           Inl b \<Rightarrow> Inl b
         | Inr a \<Rightarrow>
            (let new_flags = (if a then (old_flags AND NOT (LRU_GEN_MASK L)) OR BIT (PG_active L)
                              else old_flags AND NOT (LRU_GEN_MASK L));
                 p' = p\<lparr>flags := new_flags\<rparr>
             in case lru_gen_update_size L p' lv gen (- 1) of
                  Inl b \<Rightarrow> Inl b
                | Inr lv' \<Rightarrow> Inr (True, p', list_del (page_id p') lv'))))"

subsection \<open>Usage\<close>

text \<open>
  \<open>lru_gen_enabled()\<close> reads a static key, which is the argument \<open>lru_gen_enabled\<close>.
\<close>

definition page_inc_usage :: "layout \<Rightarrow> bool \<Rightarrow> page \<Rightarrow> bool \<times> page" where
  "page_inc_usage L lru_gen_enabled p =
     (if \<not> lru_gen_enabled then (PageActive L p, p)
      else
        let old_flags = flags p;
            new_flags =
              (if old_flags AND BIT (PG_workingset L) = 0
               then old_flags OR BIT (PG_workingset L)
               else (old_flags AND NOT (LRU_USAGE_MASK L)) OR
                    min (LRU_USAGE_MASK L)
                        ((old_flags AND LRU_USAGE_MASK L) + BIT (LRU_USAGE_PGOFF L)))
        in (True, p\<lparr>flags := new_flags\<rparr>))"

text \<open>The value of the usage field of a flags word.\<close>

definition flags_usage :: "layout \<Rightarrow> 64 word \<Rightarrow> nat" where
  "flags_usage L w = unat (drop_bit (LRU_USAGE_PGOFF L) (w AND LRU_USAGE_MASK L))"

text \<open>
  \<open>lru_tier_from_usage\<close> is \<open>order_base_2(usage + 1)\<close> and nothing more: the function
  rounds and bounds its result only as far as the macro does. The macro \<open>order_base_2\<close>
  belongs to \<open>log2.h\<close>; it is the first argument.
\<close>

definition lru_tier_from_usage :: "(int \<Rightarrow> int) \<Rightarrow> int \<Rightarrow> int" where
  "lru_tier_from_usage order_base_2 usage = order_base_2 (usage + 1)"

subsection \<open>Layouts the header is compiled for\<close>

text \<open>
  The conditions on the constants under which the functions above are what the C code
  computes: the generation is an \<open>int\<close> and every \<open>gen + 1\<close> fits its field, the fields
  lie inside the word, the usage field ends below the top bit, and the fields and the
  flag bits read here do not overlap.
\<close>

definition layout_ok :: "layout \<Rightarrow> bool" where
  "layout_ok L \<longleftrightarrow>
     0 < MAX_NR_GENS L \<and> MAX_NR_GENS L < 2 ^ LRU_GEN_WIDTH L \<and> LRU_GEN_WIDTH L \<le> 31 \<and>
     LRU_GEN_PGOFF L + LRU_GEN_WIDTH L \<le> 64 \<and>
     LRU_USAGE_PGOFF L + LRU_USAGE_WIDTH L < 64 \<and>
     LRU_GEN_MASK L AND (LRU_USAGE_MASK L OR LRU_TIER_FLAGS L) = 0 \<and>
     PG_active L < 64 \<and> PG_workingset L < 64 \<and>
     \<not> bit (LRU_GEN_MASK L OR LRU_USAGE_MASK L) (PG_active L) \<and>
     \<not> bit (LRU_GEN_MASK L OR LRU_USAGE_MASK L OR BIT (PG_active L)) (PG_workingset L) \<and>
     \<not> bit (LRU_GEN_MASK L OR LRU_USAGE_MASK L OR LRU_TIER_FLAGS L OR BIT (PG_active L))
          (PG_unevictable L) \<and>
     \<not> bit (LRU_GEN_MASK L OR LRU_USAGE_MASK L OR LRU_TIER_FLAGS L OR BIT (PG_active L))
          (PG_swapbacked L)"

text \<open>A page that carries a generation has its active bit clear.\<close>

definition gen_excludes_active :: "layout \<Rightarrow> page \<Rightarrow> bool" where
  "gen_excludes_active L p \<longleftrightarrow> (flags p AND LRU_GEN_MASK L \<noteq> 0 \<longrightarrow> \<not> PageActive L p)"

subsection \<open>A concrete layout, lruvec and pages\<close>

definition L0 :: layout where
  "L0 = \<lparr>MAX_NR_GENS = 4, LRU_GEN_WIDTH = 3, LRU_GEN_PGOFF = 42, LRU_USAGE_WIDTH = 2,
          LRU_USAGE_PGOFF = 40, LRU_TIER_FLAGS = 66, PG_referenced = 1, PG_dirty = 3,
          PG_active = 5, PG_workingset = 6, PG_unevictable = 20, PG_swapbacked = 19,
          PG_swapcache = 10, PG_reclaim = 18, PG_writeback = 15, LRU_ACTIVE = 1,
          LRU_FILE = 2\<rparr>"

definition lv0 :: lruvec where
  "lv0 = \<lparr>evictable = \<lparr>max_seq = 5, min_seq = (\<lambda>_. 3), enabled = (\<lambda>_. True),
                        sizes = (\<lambda>_. 0), lrugen_lists = (\<lambda>_. [])\<rparr>,
           lru_size_updates = []\<rparr>"

text \<open>An inactive file page, an active file page, an unevictable page and an anon page.\<close>

definition page_file :: page where
  "page_file = \<lparr>page_id = 7, flags = 0, page_zonenum = 1, thp_nr_pages = 1\<rparr>"

definition page_active :: page where
  "page_active = \<lparr>page_id = 8, flags = 32, page_zonenum = 1, thp_nr_pages = 1\<rparr>"

definition page_unevictable :: page where
  "page_unevictable = \<lparr>page_id = 9, flags = 1048576, page_zonenum = 1, thp_nr_pages = 1\<rparr>"

definition page_anon :: page where
  "page_anon = \<lparr>page_id = 10, flags = 524288, page_zonenum = 0, thp_nr_pages = 512\<rparr>"

text \<open>A file page on the lists with generation 1, which is active under \<open>lv0\<close>.\<close>

definition page_tracked :: page where
  "page_tracked = \<lparr>page_id = 11, flags = 8796093022208, page_zonenum = 1, thp_nr_pages = 1\<rparr>"

text \<open>A file page with the workingset bit set and the usage field at its maximum, 3.\<close>

definition page_hot :: page where
  "page_hot = \<lparr>page_id = 12, flags = 3298534883392, page_zonenum = 1, thp_nr_pages = 1\<rparr>"

text \<open>
  Two inactive file pages with bits 0 and 3, the workingset bit and 2 in the usage field:
  \<open>page_seen\<close> has the referenced bit as well, \<open>page_unseen\<close> has not.
\<close>

definition page_seen :: page where
  "page_seen = \<lparr>page_id = 13, flags = 2199023255627, page_zonenum = 1, thp_nr_pages = 1\<rparr>"

definition page_unseen :: page where
  "page_unseen = \<lparr>page_id = 14, flags = 2199023255625, page_zonenum = 1, thp_nr_pages = 1\<rparr>"

section \<open>Bits of the masks\<close>

lemma bit_BIT: "bit (BIT n) m \<longleftrightarrow> m = n \<and> n < 64"
  by (auto simp: BIT_def bit_simps)

lemma and_BIT_eq_0: "w AND BIT n = 0 \<longleftrightarrow> \<not> bit w n"
  by (simp add: BIT_def bit_iff_and_push_bit_not_eq_0)

lemma bit_LRU_GEN_MASK:
  "bit (LRU_GEN_MASK L) n \<longleftrightarrow>
     LRU_GEN_PGOFF L \<le> n \<and> n < LRU_GEN_PGOFF L + LRU_GEN_WIDTH L \<and> n < 64"
  by (auto simp: LRU_GEN_MASK_def bit_simps)

lemma bit_LRU_USAGE_MASK:
  "bit (LRU_USAGE_MASK L) n \<longleftrightarrow>
     LRU_USAGE_PGOFF L \<le> n \<and> n < LRU_USAGE_PGOFF L + LRU_USAGE_WIDTH L \<and> n < 64"
  by (auto simp: LRU_USAGE_MASK_def bit_simps)

lemma bit_int_bound:
  assumes "0 \<le> k" and "k < 2 ^ w" and "bit (k::int) n"
  shows "n < w"
proof -
  from assms(1,2) have "take_bit w k = k" by (simp add: take_bit_int_eq_self)
  with assms(3) have "bit (take_bit w k) n" by simp
  then show "n < w" by (simp add: bit_simps)
qed

lemma bit_gen_plus_1:
  assumes "0 \<le> g" and "g + 1 < 2 ^ w" and "bit (word_of_int g + 1 :: 64 word) n"
  shows "n < w"
proof -
  have "(word_of_int g + 1 :: 64 word) = word_of_int (g + 1)" by simp
  with assms(3) have b: "bit (g + 1) n" by (simp only: bit_word_of_int_iff)
  from assms(1) have "0 \<le> g + 1" by linarith
  then show "n < w" using assms(2) b by (rule bit_int_bound)
qed

lemma L0_ok: "layout_ok L0"
  by (simp add: layout_ok_def L0_def LRU_GEN_MASK_def LRU_USAGE_MASK_def BIT_def
      mask_eq_exp_minus_1 push_bit_eq_mult bit_simps)

section \<open>The generation field\<close>

lemma lru_gen_from_seq_range:
  "0 < MAX_NR_GENS L \<Longrightarrow>
     0 \<le> lru_gen_from_seq L s \<and> lru_gen_from_seq L s < int (MAX_NR_GENS L)"
  by (simp add: lru_gen_from_seq_def)

lemma gen_field_zero_iff:
  "drop_bit (LRU_GEN_PGOFF L) (w AND LRU_GEN_MASK L) = 0 \<longleftrightarrow> w AND LRU_GEN_MASK L = 0"
proof
  assume a: "drop_bit (LRU_GEN_PGOFF L) (w AND LRU_GEN_MASK L) = 0"
  show "w AND LRU_GEN_MASK L = 0"
  proof (rule bit_word_eqI)
    fix n assume "n < LENGTH(64)"
    have "\<not> bit (w AND LRU_GEN_MASK L) n"
    proof
      assume b: "bit (w AND LRU_GEN_MASK L) n"
      then have "LRU_GEN_PGOFF L \<le> n" by (simp add: bit_and_iff bit_LRU_GEN_MASK)
      with b have "bit (drop_bit (LRU_GEN_PGOFF L) (w AND LRU_GEN_MASK L)) (n - LRU_GEN_PGOFF L)"
        by (simp only: bit_drop_bit_eq comp_def le_add_diff_inverse)
      with a show False by simp
    qed
    then show "bit (w AND LRU_GEN_MASK L) n = bit (0::64 word) n" by simp
  qed
next
  assume "w AND LRU_GEN_MASK L = 0"
  then show "drop_bit (LRU_GEN_PGOFF L) (w AND LRU_GEN_MASK L) = 0" by simp
qed

lemma gen_field_bound:
  "uint (drop_bit (LRU_GEN_PGOFF L) (w AND LRU_GEN_MASK L)) < 2 ^ LRU_GEN_WIDTH L"
proof -
  let ?f = "drop_bit (LRU_GEN_PGOFF L) (w AND LRU_GEN_MASK L)"
  have "take_bit (LRU_GEN_WIDTH L) ?f = ?f"
    by (rule bit_word_eqI) (auto simp: bit_simps bit_LRU_GEN_MASK)
  then have "uint ?f = take_bit (LRU_GEN_WIDTH L) (uint ?f)"
    by (simp only: unsigned_take_bit_eq [symmetric])
  also have "\<dots> < 2 ^ LRU_GEN_WIDTH L" by (rule take_bit_int_less_exp)
  finally show ?thesis .
qed

lemma ucast_word_of_int: "(ucast (word_of_int k :: 64 word) :: 32 word) = word_of_int k"
  by (rule ucast_down_wi) (simp add: is_down)

lemma ucast_sub_1: "(ucast ((f::64 word) - 1) :: 32 word) = word_of_int (uint f - 1)"
proof -
  have "f - 1 = word_of_int (uint f - 1)" by simp
  then have "(ucast (f - 1) :: 32 word) = ucast (word_of_int (uint f - 1) :: 64 word)"
    by (rule arg_cong)
  also have "\<dots> = word_of_int (uint f - 1)" by (rule ucast_word_of_int)
  finally show ?thesis .
qed

lemma sint_word_of_int_small:
  assumes "- (2 ^ 31) \<le> k" and "k < 2 ^ 31"
  shows "sint (word_of_int k :: 32 word) = k"
proof -
  have "sint (word_of_int k :: 32 word) = signed_take_bit 31 k" by (simp add: sint_sbintrunc')
  also have "\<dots> = k" using assms by (simp add: signed_take_bit_int_eq_self)
  finally show ?thesis .
qed

text \<open>With a field of at most 31 bits the conversion to \<open>int\<close> loses nothing.\<close>

lemma flags_lru_gen_eq:
  assumes "LRU_GEN_WIDTH L \<le> 31"
  shows "flags_lru_gen L w = uint (drop_bit (LRU_GEN_PGOFF L) (w AND LRU_GEN_MASK L)) - 1"
proof -
  let ?f = "drop_bit (LRU_GEN_PGOFF L) (w AND LRU_GEN_MASK L)"
  have "uint ?f < 2 ^ LRU_GEN_WIDTH L" by (rule gen_field_bound)
  also have "(2::int) ^ LRU_GEN_WIDTH L \<le> 2 ^ 31" using assms by (rule power_increasing) simp
  finally have b: "uint ?f - 1 < 2 ^ 31" by simp
  have "0 \<le> uint ?f" by (rule uint_nonnegative)
  moreover have "- (2 ^ 31) \<le> (- 1 :: int)" by simp
  ultimately have c: "- (2 ^ 31) \<le> uint ?f - 1" by linarith
  have "(ucast (?f - 1) :: 32 word) = word_of_int (uint ?f - 1)"
    by (rule ucast_sub_1)
  then have "flags_lru_gen L w = sint (word_of_int (uint ?f - 1) :: 32 word)"
    by (simp only: flags_lru_gen_def)
  also have "\<dots> = uint ?f - 1" using c b by (rule sint_word_of_int_small)
  finally show ?thesis .
qed

lemma flags_lru_gen_untracked_iff:
  assumes "LRU_GEN_WIDTH L \<le> 31"
  shows "flags_lru_gen L w = - 1 \<longleftrightarrow> w AND LRU_GEN_MASK L = 0"
proof -
  have "flags_lru_gen L w = - 1 \<longleftrightarrow> uint (drop_bit (LRU_GEN_PGOFF L) (w AND LRU_GEN_MASK L)) = 0"
    by (simp add: flags_lru_gen_eq [OF assms])
  also have "\<dots> \<longleftrightarrow> drop_bit (LRU_GEN_PGOFF L) (w AND LRU_GEN_MASK L) = 0"
    by (rule uint_0_iff)
  also have "\<dots> \<longleftrightarrow> w AND LRU_GEN_MASK L = 0" by (rule gen_field_zero_iff)
  finally show ?thesis .
qed

lemma flags_lru_gen_tracked_nonneg:
  assumes "LRU_GEN_WIDTH L \<le> 31" and "w AND LRU_GEN_MASK L \<noteq> 0"
  shows "0 \<le> flags_lru_gen L w"
proof -
  let ?f = "drop_bit (LRU_GEN_PGOFF L) (w AND LRU_GEN_MASK L)"
  from assms(2) have "?f \<noteq> 0" by (simp only: gen_field_zero_iff not_False_eq_True)
  then have "uint ?f \<noteq> 0" by (simp only: uint_0_iff not_False_eq_True)
  moreover have "0 \<le> uint ?f" by (rule uint_nonnegative)
  ultimately have "0 \<le> uint ?f - 1" by linarith
  then show ?thesis by (simp only: flags_lru_gen_eq [OF assms(1)])
qed

lemma bit_lru_gen_addition_flags:
  "bit (lru_gen_addition_flags L g old) n \<longleftrightarrow>
     ((bit old n \<and> \<not> bit (LRU_GEN_MASK L) n \<and> n \<noteq> PG_active L) \<or>
      bit (push_bit (LRU_GEN_PGOFF L) (word_of_int g + 1 :: 64 word)) n) \<and>
     (bit old (PG_referenced L) \<or> (\<not> bit (LRU_USAGE_MASK L) n \<and> \<not> bit (LRU_TIER_FLAGS L) n))"
  by (auto simp: lru_gen_addition_flags_def Let_def and_BIT_eq_0 bit_and_iff bit_or_iff bit_not_iff bit_BIT
      dest: bit_imp_le_length)

lemma layout_ok_gen_bound:
  assumes "layout_ok L" and "g < int (MAX_NR_GENS L)"
  shows "g + 1 < 2 ^ LRU_GEN_WIDTH L"
proof -
  from assms(1) have "MAX_NR_GENS L < 2 ^ LRU_GEN_WIDTH L" by (simp add: layout_ok_def)
  then have "int (MAX_NR_GENS L) < int (2 ^ LRU_GEN_WIDTH L)" by (simp only: of_nat_less_iff)
  also have "\<dots> = 2 ^ LRU_GEN_WIDTH L" by simp
  finally show ?thesis using assms(2) by linarith
qed

lemma gen_bits_in_mask:
  assumes "layout_ok L" and "0 \<le> g" and "g < int (MAX_NR_GENS L)"
    and "bit (push_bit (LRU_GEN_PGOFF L) (word_of_int g + 1 :: 64 word)) n"
  shows "bit (LRU_GEN_MASK L) n"
proof -
  from assms(4) have a: "LRU_GEN_PGOFF L \<le> n" "n < 64"
    and b: "bit (word_of_int g + 1 :: 64 word) (n - LRU_GEN_PGOFF L)"
    by (simp_all add: bit_push_bit_iff)
  from assms(1,3) have "g + 1 < 2 ^ LRU_GEN_WIDTH L" by (rule layout_ok_gen_bound)
  with assms(2) have "n - LRU_GEN_PGOFF L < LRU_GEN_WIDTH L" using b by (rule bit_gen_plus_1)
  with a show ?thesis by (simp add: bit_LRU_GEN_MASK)
qed

lemma mask_disjoint:
  assumes "layout_ok L" and "bit (LRU_GEN_MASK L) n"
  shows "\<not> bit (LRU_USAGE_MASK L) n \<and> \<not> bit (LRU_TIER_FLAGS L) n"
proof -
  from assms(1) have "LRU_GEN_MASK L AND (LRU_USAGE_MASK L OR LRU_TIER_FLAGS L) = 0"
    by (simp add: layout_ok_def)
  then have "bit (LRU_GEN_MASK L AND (LRU_USAGE_MASK L OR LRU_TIER_FLAGS L)) n = bit (0::64 word) n"
    by (rule arg_cong)
  with assms(2) show ?thesis by (simp add: bit_and_iff bit_or_iff)
qed

lemma addition_flags_gen_field:
  assumes "layout_ok L" and "0 \<le> g" and "g < int (MAX_NR_GENS L)"
  shows "drop_bit (LRU_GEN_PGOFF L) (lru_gen_addition_flags L g old AND LRU_GEN_MASK L)
         = word_of_int g + 1"
proof (rule bit_word_eqI)
  fix n assume n: "n < LENGTH(64)"
  let ?G = "push_bit (LRU_GEN_PGOFF L) (word_of_int g + 1 :: 64 word)"
  have in_mask: "bit ?G m \<Longrightarrow> bit (LRU_GEN_MASK L) m" for m
    using assms by (rule gen_bits_in_mask)
  have disj: "bit (LRU_GEN_MASK L) m \<Longrightarrow> \<not> bit (LRU_USAGE_MASK L) m \<and> \<not> bit (LRU_TIER_FLAGS L) m" for m
    using assms(1) by (rule mask_disjoint)
  have "bit (drop_bit (LRU_GEN_PGOFF L) (lru_gen_addition_flags L g old AND LRU_GEN_MASK L)) n
        \<longleftrightarrow> bit (lru_gen_addition_flags L g old) (LRU_GEN_PGOFF L + n) \<and> bit (LRU_GEN_MASK L) (LRU_GEN_PGOFF L + n)"
    by (simp add: bit_drop_bit_eq bit_and_iff)
  also have "\<dots> \<longleftrightarrow> bit ?G (LRU_GEN_PGOFF L + n)"
    using in_mask [of "LRU_GEN_PGOFF L + n"] disj [of "LRU_GEN_PGOFF L + n"]
    by (auto simp only: bit_lru_gen_addition_flags)
  also have "\<dots> \<longleftrightarrow> bit (word_of_int g + 1 :: 64 word) n"
  proof
    assume "bit ?G (LRU_GEN_PGOFF L + n)"
    then show "bit (word_of_int g + 1 :: 64 word) n" by (simp add: bit_push_bit_iff)
  next
    assume b: "bit (word_of_int g + 1 :: 64 word) n"
    from assms(1,3) have "g + 1 < 2 ^ LRU_GEN_WIDTH L" by (rule layout_ok_gen_bound)
    with assms(2) have "n < LRU_GEN_WIDTH L" using b by (rule bit_gen_plus_1)
    moreover from assms(1) have "LRU_GEN_PGOFF L + LRU_GEN_WIDTH L \<le> 64" by (simp add: layout_ok_def)
    ultimately have "LRU_GEN_PGOFF L + n < 64" by linarith
    with b show "bit ?G (LRU_GEN_PGOFF L + n)" by (simp add: bit_push_bit_iff)
  qed
  finally show "bit (drop_bit (LRU_GEN_PGOFF L) (lru_gen_addition_flags L g old AND LRU_GEN_MASK L)) n
     = bit (word_of_int g + 1 :: 64 word) n" .
qed

lemma uint_gen_plus_1:
  assumes "0 \<le> g" and "g < 2 ^ 31"
  shows "uint (word_of_int g + 1 :: 64 word) = g + 1"
proof -
  have "(word_of_int g + 1 :: 64 word) = word_of_int (g + 1)" by simp
  then have "uint (word_of_int g + 1 :: 64 word) = take_bit 64 (g + 1)"
    by (simp only: uint_word_of_int_eq) simp
  also have "\<dots> = g + 1" using assms by (simp add: take_bit_int_eq_self)
  finally show ?thesis .
qed


lemma max_seq_sizes_add: "max_seq (evictable (sizes_add lv k d)) = max_seq (evictable lv)"
  by (simp add: sizes_add_def)

lemma lru_gen_is_active_sizes_add:
  "lru_gen_is_active L (sizes_add lv k d) g = lru_gen_is_active L lv g"
  by (simp add: lru_gen_is_active_def max_seq_sizes_add)

lemma lru_gen_is_active_eq:
  assumes "g < int (MAX_NR_GENS L)" and "max_seq (evictable lv) \<noteq> 0"
  shows "lru_gen_is_active L lv g =
         Inr (g = lru_gen_from_seq L (max_seq (evictable lv)) \<or>
              g = lru_gen_from_seq L (max_seq (evictable lv) - 1))"
  using assms by (simp add: lru_gen_is_active_def Let_def)

lemma lru_gen_is_active_max_seq_0:
  "max_seq (evictable lv) = 0 \<Longrightarrow> lru_gen_is_active L lv g = Inl BUG_max_seq_zero"
  by (simp add: lru_gen_is_active_def Let_def)

lemma lru_gen_update_size_add:
  assumes "0 \<le> g" and "g < int (MAX_NR_GENS L)"
    and "page_is_file_lru L p = f" and "page_zonenum p = z" and "thp_nr_pages p = d"
  shows "lru_gen_update_size L p lv (- 1) g =
     (case lru_gen_is_active L lv g of
        Inl b \<Rightarrow> Inl b
      | Inr a \<Rightarrow>
          Inr (update_lru_size (sizes_add lv (nat g, f, z) d)
                 (if a then LRU_FILE L * f + LRU_ACTIVE L else LRU_FILE L * f) z d))"
  using assms by (simp add: lru_gen_update_size_def Let_def lru_gen_is_active_sizes_add)

lemma lru_gen_update_size_del:
  assumes "0 \<le> g"
    and "page_is_file_lru L p = f" and "page_zonenum p = z" and "thp_nr_pages p = d"
  shows "lru_gen_update_size L p lv g (- 1) =
     (if g \<ge> int (MAX_NR_GENS L) then Inl BUG_old_gen_range
      else case lru_gen_is_active L lv g of
        Inl b \<Rightarrow> Inl b
      | Inr a \<Rightarrow>
          Inr (update_lru_size (sizes_add lv (nat g, f, z) (- d))
                 (if a then LRU_FILE L * f + LRU_ACTIVE L else LRU_FILE L * f) z (- d)))"
  using assms by (auto simp add: lru_gen_update_size_def Let_def lru_gen_is_active_sizes_add)

lemma lru_gen_addition_gen_range:
  assumes "layout_ok L"
  shows "0 \<le> lru_gen_addition_gen L p lv" and "lru_gen_addition_gen L p lv < int (MAX_NR_GENS L)"
proof -
  from assms have "0 < MAX_NR_GENS L" by (simp add: layout_ok_def)
  then have r: "0 \<le> lru_gen_from_seq L s \<and> lru_gen_from_seq L s < int (MAX_NR_GENS L)" for s
    by (rule lru_gen_from_seq_range)
  show "0 \<le> lru_gen_addition_gen L p lv" using r by (simp add: lru_gen_addition_gen_def Let_def)
  show "lru_gen_addition_gen L p lv < int (MAX_NR_GENS L)"
    using r by (simp add: lru_gen_addition_gen_def Let_def)
qed

text \<open>bits that the addition write leaves alone\<close>

lemma addition_flags_unevictable:
  assumes "layout_ok L" and "0 \<le> g" and "g < int (MAX_NR_GENS L)"
  shows "bit (lru_gen_addition_flags L g old) (PG_unevictable L) = bit old (PG_unevictable L)"
proof -
  from assms(1) have a: "\<not> bit (LRU_GEN_MASK L) (PG_unevictable L)"
    "\<not> bit (LRU_USAGE_MASK L) (PG_unevictable L)" "\<not> bit (LRU_TIER_FLAGS L) (PG_unevictable L)"
    "\<not> bit (BIT (PG_active L)) (PG_unevictable L)"
    by (simp_all add: layout_ok_def bit_or_iff)
  from assms(1) have "PG_active L < 64" by (simp add: layout_ok_def)
  with a(4) have b: "PG_unevictable L \<noteq> PG_active L" by (auto simp: bit_BIT)
  have c: "\<not> bit (push_bit (LRU_GEN_PGOFF L) (word_of_int g + 1 :: 64 word)) (PG_unevictable L)"
    using gen_bits_in_mask [OF assms] a(1) by blast
  show ?thesis using a b c by (simp only: bit_lru_gen_addition_flags) blast
qed

lemma addition_flags_swapbacked:
  assumes "layout_ok L" and "0 \<le> g" and "g < int (MAX_NR_GENS L)"
  shows "bit (lru_gen_addition_flags L g old) (PG_swapbacked L) = bit old (PG_swapbacked L)"
proof -
  from assms(1) have a: "\<not> bit (LRU_GEN_MASK L) (PG_swapbacked L)"
    "\<not> bit (LRU_USAGE_MASK L) (PG_swapbacked L)" "\<not> bit (LRU_TIER_FLAGS L) (PG_swapbacked L)"
    "\<not> bit (BIT (PG_active L)) (PG_swapbacked L)"
    by (simp_all add: layout_ok_def bit_or_iff)
  from assms(1) have "PG_active L < 64" by (simp add: layout_ok_def)
  with a(4) have b: "PG_swapbacked L \<noteq> PG_active L" by (auto simp: bit_BIT)
  have c: "\<not> bit (push_bit (LRU_GEN_PGOFF L) (word_of_int g + 1 :: 64 word)) (PG_swapbacked L)"
    using gen_bits_in_mask [OF assms] a(1) by blast
  show ?thesis using a b c by (simp only: bit_lru_gen_addition_flags) blast
qed

lemma addition_flags_active:
  assumes "layout_ok L" and "0 \<le> g" and "g < int (MAX_NR_GENS L)"
  shows "\<not> bit (lru_gen_addition_flags L g old) (PG_active L)"
proof -
  from assms(1) have a: "\<not> bit (LRU_GEN_MASK L) (PG_active L)"
    by (simp add: layout_ok_def bit_or_iff)
  have c: "\<not> bit (push_bit (LRU_GEN_PGOFF L) (word_of_int g + 1 :: 64 word)) (PG_active L)"
    using gen_bits_in_mask [OF assms] a by blast
  show ?thesis using c by (simp only: bit_lru_gen_addition_flags) blast
qed

lemma addition_flags_tracked:
  assumes "layout_ok L" and "0 \<le> g" and "g < int (MAX_NR_GENS L)"
  shows "lru_gen_addition_flags L g old AND LRU_GEN_MASK L \<noteq> 0"
    and "flags_lru_gen L (lru_gen_addition_flags L g old) = g"
proof -
  let ?new = "lru_gen_addition_flags L g old"
  from assms(1) have w: "LRU_GEN_WIDTH L \<le> 31" by (simp add: layout_ok_def)
  have "g + 1 < 2 ^ LRU_GEN_WIDTH L" using assms(1,3) by (rule layout_ok_gen_bound)
  also have "(2::int) ^ LRU_GEN_WIDTH L \<le> 2 ^ 31" using w by (rule power_increasing) simp
  finally have "g < 2 ^ 31" by simp
  with assms(2) have u: "uint (word_of_int g + 1 :: 64 word) = g + 1" by (rule uint_gen_plus_1)
  have f: "drop_bit (LRU_GEN_PGOFF L) (?new AND LRU_GEN_MASK L) = word_of_int g + 1"
    using assms by (rule addition_flags_gen_field)
  have "flags_lru_gen L ?new = uint (drop_bit (LRU_GEN_PGOFF L) (?new AND LRU_GEN_MASK L)) - 1"
    using w by (rule flags_lru_gen_eq)
  also have "\<dots> = g" by (simp only: f u)
  finally show g: "flags_lru_gen L ?new = g" .
  show "?new AND LRU_GEN_MASK L \<noteq> 0"
  proof
    assume "?new AND LRU_GEN_MASK L = 0"
    then have "flags_lru_gen L ?new = - 1" by (simp only: flags_lru_gen_untracked_iff [OF w])
    with g assms(2) show False by linarith
  qed
qed

lemma page_is_file_lru_added:
  assumes "layout_ok L" and "0 \<le> g" and "g < int (MAX_NR_GENS L)"
  shows "page_is_file_lru L (p\<lparr>flags := lru_gen_addition_flags L g (flags p)\<rparr>) = page_is_file_lru L p"
  using addition_flags_swapbacked [OF assms, of "flags p"]
  by (simp add: page_is_file_lru_def PageSwapBacked_def)

text \<open>\<open>lru_gen_addition\<close> with its four outcomes spelled out.\<close>

lemma lru_gen_addition_eq:
  assumes "layout_ok L"
  shows "lru_gen_addition L p lv front =
    (let g = lru_gen_addition_gen L p lv;
         k = (nat g, page_is_file_lru L p, page_zonenum p);
         lru = LRU_FILE L * page_is_file_lru L p;
         a = (g = lru_gen_from_seq L (max_seq (evictable lv)) \<or>
              g = lru_gen_from_seq L (max_seq (evictable lv) - 1));
         lv' = update_lru_size (sizes_add lv k (thp_nr_pages p))
                 (if a then lru + LRU_ACTIVE L else lru) (page_zonenum p) (thp_nr_pages p)
     in
     if PageUnevictable L p \<or> \<not> enabled (evictable lv) (page_is_file_lru L p)
     then Inr (False, p, lv)
     else if flags p AND LRU_GEN_MASK L \<noteq> 0 then Inl BUG_page_tracked
     else if max_seq (evictable lv) = 0 then Inl BUG_max_seq_zero
     else Inr (True, p\<lparr>flags := lru_gen_addition_flags L g (flags p)\<rparr>,
               if front then list_add (page_id p) k lv' else list_add_tail (page_id p) k lv'))"
proof -
  let ?g = "lru_gen_addition_gen L p lv"
  let ?p' = "p\<lparr>flags := lru_gen_addition_flags L ?g (flags p)\<rparr>"
  have g: "0 \<le> ?g" "?g < int (MAX_NR_GENS L)"
    using assms by (rule lru_gen_addition_gen_range)+
  have fl: "page_is_file_lru L ?p' = page_is_file_lru L p"
    using assms g by (rule page_is_file_lru_added)
  have upd: "lru_gen_update_size L ?p' lv (- 1) ?g =
     (case lru_gen_is_active L lv ?g of
        Inl b \<Rightarrow> Inl b
      | Inr a \<Rightarrow>
          Inr (update_lru_size
                 (sizes_add lv (nat ?g, page_is_file_lru L p, page_zonenum p) (thp_nr_pages p))
                 (if a then LRU_FILE L * page_is_file_lru L p + LRU_ACTIVE L
                  else LRU_FILE L * page_is_file_lru L p)
                 (page_zonenum p) (thp_nr_pages p)))"
    using g fl by (rule lru_gen_update_size_add) simp_all
  show ?thesis
  proof (cases "max_seq (evictable lv) = 0")
    case True
    then have "lru_gen_is_active L lv ?g = Inl BUG_max_seq_zero"
      by (rule lru_gen_is_active_max_seq_0)
    then show ?thesis using True by (simp add: lru_gen_addition_def Let_def upd)
  next
    case False
    with g(2) have "lru_gen_is_active L lv ?g =
         Inr (?g = lru_gen_from_seq L (max_seq (evictable lv)) \<or>
              ?g = lru_gen_from_seq L (max_seq (evictable lv) - 1))"
      by (rule lru_gen_is_active_eq)
    then show ?thesis using False by (simp add: lru_gen_addition_def Let_def upd)
  qed
qed


text \<open>the word written by \<open>lru_gen_deletion\<close>\<close>

lemma bit_deletion_flags:
  "bit ((if a then (old AND NOT (LRU_GEN_MASK L)) OR BIT (PG_active L)
         else old AND NOT (LRU_GEN_MASK L))) n \<longleftrightarrow>
   (bit old n \<and> \<not> bit (LRU_GEN_MASK L) n) \<or> (a \<and> n = PG_active L \<and> PG_active L < 64)"
  by (auto simp: bit_and_iff bit_or_iff bit_not_iff bit_BIT dest: bit_imp_le_length)

lemma deletion_flags_untracked:
  assumes "layout_ok L"
  shows "(if a then (old AND NOT (LRU_GEN_MASK L)) OR BIT (PG_active L)
          else old AND NOT (LRU_GEN_MASK L)) AND LRU_GEN_MASK L = 0"
proof (rule bit_word_eqI)
  fix n assume "n < LENGTH(64)"
  from assms have "\<not> bit (LRU_GEN_MASK L) (PG_active L)" by (simp add: layout_ok_def bit_or_iff)
  then show "bit ((if a then (old AND NOT (LRU_GEN_MASK L)) OR BIT (PG_active L)
          else old AND NOT (LRU_GEN_MASK L)) AND LRU_GEN_MASK L) n = bit (0::64 word) n"
    by (simp only: bit_and_iff [of _ "LRU_GEN_MASK L"] bit_deletion_flags) auto
qed

lemma deletion_flags_active:
  assumes "layout_ok L" and "\<not> bit old (PG_active L)"
  shows "bit (if a then (old AND NOT (LRU_GEN_MASK L)) OR BIT (PG_active L)
          else old AND NOT (LRU_GEN_MASK L)) (PG_active L) \<longleftrightarrow> a"
proof -
  from assms(1) have "PG_active L < 64" by (simp add: layout_ok_def)
  with assms(2) show ?thesis by (simp only: bit_deletion_flags) simp
qed

lemma deletion_flags_swapbacked:
  assumes "layout_ok L"
  shows "bit (if a then (old AND NOT (LRU_GEN_MASK L)) OR BIT (PG_active L)
          else old AND NOT (LRU_GEN_MASK L)) (PG_swapbacked L) \<longleftrightarrow> bit old (PG_swapbacked L)"
proof -
  from assms(1) have a: "\<not> bit (LRU_GEN_MASK L) (PG_swapbacked L)"
    "\<not> bit (BIT (PG_active L)) (PG_swapbacked L)" "PG_active L < 64"
    by (simp_all add: layout_ok_def bit_or_iff)
  then have "PG_swapbacked L \<noteq> PG_active L" by (auto simp: bit_BIT)
  with a(1) show ?thesis by (simp only: bit_deletion_flags) simp
qed

text \<open>\<open>lru_gen_deletion\<close> with its outcomes spelled out.\<close>

lemma lru_gen_deletion_eq:
  assumes "layout_ok L"
  shows "lru_gen_deletion L p lv =
    (let g = flags_lru_gen L (flags p);
         k = (nat g, page_is_file_lru L p, page_zonenum p);
         lru = LRU_FILE L * page_is_file_lru L p;
         a = (g = lru_gen_from_seq L (max_seq (evictable lv)) \<or>
              g = lru_gen_from_seq L (max_seq (evictable lv) - 1));
         lv' = update_lru_size (sizes_add lv k (- thp_nr_pages p))
                 (if a then lru + LRU_ACTIVE L else lru) (page_zonenum p) (- thp_nr_pages p)
     in
     if flags p AND LRU_GEN_MASK L = 0 then Inr (False, p, lv)
     else if PageActive L p then Inl BUG_page_active
     else if PageUnevictable L p then Inl BUG_page_unevictable
     else if max_seq (evictable lv) = 0 then Inl BUG_max_seq_zero
     else if g \<ge> int (MAX_NR_GENS L) then Inl BUG_gen_range
     else Inr (True,
               p\<lparr>flags := (if a then (flags p AND NOT (LRU_GEN_MASK L)) OR BIT (PG_active L)
                            else flags p AND NOT (LRU_GEN_MASK L))\<rparr>,
               list_del (page_id p) lv'))"
proof (cases "flags p AND LRU_GEN_MASK L = 0")
  case True
  then show ?thesis by (simp add: lru_gen_deletion_def Let_def)
next
  case tracked: False
  let ?g = "flags_lru_gen L (flags p)"
  let ?a = "?g = lru_gen_from_seq L (max_seq (evictable lv)) \<or>
            ?g = lru_gen_from_seq L (max_seq (evictable lv) - 1)"
  let ?p' = "p\<lparr>flags := (if ?a then (flags p AND NOT (LRU_GEN_MASK L)) OR BIT (PG_active L)
                            else flags p AND NOT (LRU_GEN_MASK L))\<rparr>"
  from assms have "LRU_GEN_WIDTH L \<le> 31" by (simp add: layout_ok_def)
  then have g: "0 \<le> ?g" using tracked by (rule flags_lru_gen_tracked_nonneg)
  have fl: "page_is_file_lru L ?p' = page_is_file_lru L p"
    using deletion_flags_swapbacked [OF assms, of ?a "flags p"]
    by (simp add: page_is_file_lru_def PageSwapBacked_def)
  have upd: "lru_gen_update_size L ?p' lv ?g (- 1) =
     (if ?g \<ge> int (MAX_NR_GENS L) then Inl BUG_old_gen_range
      else case lru_gen_is_active L lv ?g of
        Inl b \<Rightarrow> Inl b
      | Inr a \<Rightarrow>
          Inr (update_lru_size
                 (sizes_add lv (nat ?g, page_is_file_lru L p, page_zonenum p) (- thp_nr_pages p))
                 (if a then LRU_FILE L * page_is_file_lru L p + LRU_ACTIVE L
                  else LRU_FILE L * page_is_file_lru L p)
                 (page_zonenum p) (- thp_nr_pages p)))"
    using g fl by (rule lru_gen_update_size_del) simp_all
  show ?thesis
  proof (cases "max_seq (evictable lv) = 0")
    case True
    then have "lru_gen_is_active L lv ?g = Inl BUG_max_seq_zero"
      by (rule lru_gen_is_active_max_seq_0)
    then show ?thesis using True tracked by (simp add: lru_gen_deletion_def Let_def)
  next
    case nz: False
    show ?thesis
    proof (cases "?g \<ge> int (MAX_NR_GENS L)")
      case True
      then have "lru_gen_is_active L lv ?g = Inl BUG_gen_range"
        using nz by (simp add: lru_gen_is_active_def Let_def)
      then show ?thesis using True nz tracked by (simp add: lru_gen_deletion_def Let_def)
    next
      case False
      then have "?g < int (MAX_NR_GENS L)" by simp
      then have act: "lru_gen_is_active L lv ?g = Inr ?a"
        using nz by (rule lru_gen_is_active_eq)
      show ?thesis
      proof (cases ?a)
        case True
        with act upd False nz tracked show ?thesis
          by (simp add: lru_gen_deletion_def Let_def)
      next
        case na: False
        then have "lru_gen_is_active L lv ?g = Inr False" using act by simp
        with upd na False nz tracked show ?thesis
          by (simp add: lru_gen_deletion_def Let_def)
      qed
    qed
  qed
qed

lemma lru_gen_addition_accepts:
  assumes "layout_ok L" and "\<not> PageUnevictable L p"
    and "enabled (evictable lv) (page_is_file_lru L p)"
    and "flags p AND LRU_GEN_MASK L = 0" and "max_seq (evictable lv) \<noteq> 0"
  shows "\<exists>p' lv'. lru_gen_addition L p lv front = Inr (True, p', lv')"
  using assms(2-) by (simp add: lru_gen_addition_eq [OF assms(1)] Let_def)

lemma page_anon_facts:
  "\<not> PageUnevictable L0 page_anon" "page_is_file_lru L0 page_anon = 0"
  "\<not> PageActive L0 page_anon" "\<not> PageSwapCache L0 page_anon"
  "flags page_anon AND LRU_GEN_MASK L0 = 0" "page_id page_anon = 10"
  "page_zonenum page_anon = 0" "thp_nr_pages page_anon = 512"
  by (simp_all add: PageUnevictable_def page_is_file_lru_def PageSwapBacked_def PageActive_def
      PageSwapCache_def L0_def page_anon_def LRU_GEN_MASK_def mask_eq_exp_minus_1
      push_bit_eq_mult)

lemma lv0_facts:
  "enabled (evictable lv0) f" "max_seq (evictable lv0) = 5" "min_seq (evictable lv0) f = 3"
  "sizes (evictable lv0) k = 0" "lrugen_lists (evictable lv0) k = []"
  "lru_size_updates lv0 = []"
  by (simp_all add: lv0_def)

lemma lru_gen_deletion_accepts:
  assumes "layout_ok L" and "flags p AND LRU_GEN_MASK L \<noteq> 0" and "\<not> PageActive L p"
    and "\<not> PageUnevictable L p" and "max_seq (evictable lv) \<noteq> 0"
    and "flags_lru_gen L (flags p) < int (MAX_NR_GENS L)"
  shows "\<exists>p' lv'. lru_gen_deletion L p lv = Inr (True, p', lv')"
  using assms(2-) by (simp add: lru_gen_deletion_eq [OF assms(1)] Let_def)

lemma page_tracked_facts:
  "\<not> PageUnevictable L0 page_tracked" "\<not> PageActive L0 page_tracked"
  "flags page_tracked AND LRU_GEN_MASK L0 \<noteq> 0" "page_lru_gen L0 page_tracked = 1"
  "flags_lru_gen L0 (flags page_tracked) = 1"
  by code_simp+

lemma page_file_facts:
  "\<not> PageUnevictable L0 page_file" "\<not> PageActive L0 page_file"
  "flags page_file AND LRU_GEN_MASK L0 = 0" "page_is_file_lru L0 page_file = 1"
  "\<not> PageWorkingset L0 page_file" "\<not> PageReferenced L0 page_file"
  "page_id page_file = 7" "page_zonenum page_file = 1" "thp_nr_pages page_file = 1"
  by code_simp+

lemma lru_gen_from_seq_lv0:
  "lru_gen_from_seq L0 (max_seq (evictable lv0)) = 1"
  "lru_gen_from_seq L0 (max_seq (evictable lv0) - 1) = 0"
  by code_simp+

lemma sizes_restored: "(s(k := s k + d))(k := (s(k := s k + d)) k + - d) = (s :: _ \<Rightarrow> int)"
  by (rule ext) simp

lemma lru_gen_deletion_True:
  assumes "layout_ok L" and "flags p AND LRU_GEN_MASK L \<noteq> 0" and "\<not> PageActive L p"
    and "\<not> PageUnevictable L p" and "max_seq (evictable lv) \<noteq> 0"
    and "flags_lru_gen L (flags p) = g" and "g < int (MAX_NR_GENS L)"
    and "a \<longleftrightarrow> g = lru_gen_from_seq L (max_seq (evictable lv)) \<or>
               g = lru_gen_from_seq L (max_seq (evictable lv) - 1)"
    and "page_is_file_lru L p = f" and "page_zonenum p = z" and "thp_nr_pages p = d"
    and "page_id p = i"
  shows "lru_gen_deletion L p lv =
     Inr (True,
          p\<lparr>flags := (if a then (flags p AND NOT (LRU_GEN_MASK L)) OR BIT (PG_active L)
                       else flags p AND NOT (LRU_GEN_MASK L))\<rparr>,
          list_del i
            (update_lru_size (sizes_add lv (nat g, f, z) (- d))
               (if a then LRU_FILE L * f + LRU_ACTIVE L else LRU_FILE L * f) z (- d)))"
  using assms(2-) by (simp add: lru_gen_deletion_eq [OF assms(1)] Let_def)

section \<open>The usage field\<close>

lemma unat_mask_small:
  assumes "w < 64"
  shows "unat (mask w :: 64 word) = 2 ^ w - 1"
proof -
  have "uint (mask w :: 64 word) = mask w" using assms by (simp add: uint_mask_eq min_def)
  also have "(mask w :: int) = 2 ^ w - 1" by (rule mask_eq_exp_minus_1)
  finally have "int (unat (mask w :: 64 word)) = 2 ^ w - 1" by (simp only: uint_nat)
  also have "\<dots> = int (2 ^ w - 1)" by (simp add: of_nat_diff)
  finally show ?thesis by (simp only: of_nat_eq_iff)
qed

lemma unat_push_bit_small:
  assumes "unat (y :: 64 word) \<le> 2 ^ w" and "off + w < 64"
  shows "unat (push_bit off y) = unat y * 2 ^ off"
proof -
  have "unat y * 2 ^ off \<le> 2 ^ w * 2 ^ off" using assms(1) by (rule mult_right_mono) simp
  also have "\<dots> = (2::nat) ^ (w + off)" by (simp add: power_add)
  also have "\<dots> < 2 ^ 64" using assms(2) by (intro power_strict_increasing) simp_all
  finally have b: "unat y * 2 ^ off < 2 ^ 64" .
  have "unat (push_bit off y) = take_bit 64 (push_bit off (unat y))"
    by (simp add: unsigned_push_bit_eq)
  also have "\<dots> = take_bit 64 (unat y * 2 ^ off)" by (simp add: push_bit_eq_mult)
  also have "\<dots> = unat y * 2 ^ off" using b by (rule take_bit_nat_eq_self)
  finally show ?thesis .
qed

lemma unat_plus_1_small:
  assumes "unat (x :: 64 word) < 2 ^ w" and "w < 64"
  shows "unat (x + 1) = unat x + 1"
proof -
  have "(2::nat) ^ w < 2 ^ 64" using assms(2) by (intro power_strict_increasing) simp_all
  with assms(1) have "unat x + unat (1 :: 64 word) < 2 ^ LENGTH(64)" by simp
  then have "unat (x + 1) = unat x + unat (1 :: 64 word)" by (rule iffD1 [OF unat_add_lem])
  then show ?thesis by simp
qed

lemma unat_take_bit_less:
  assumes "take_bit w (f :: 64 word) = f"
  shows "unat f < 2 ^ w"
proof -
  have "unat f = unat (take_bit w f)" by (simp only: assms)
  also have "\<dots> = take_bit w (unat f)" by (rule unsigned_take_bit_eq)
  also have "\<dots> < 2 ^ w" by (rule take_bit_nat_less_exp)
  finally show ?thesis .
qed

lemma take_bit_of_unat_less:
  assumes "unat (f :: 64 word) < 2 ^ w"
  shows "take_bit w f = f"
  by (metis assms take_bit_nat_eq_self_iff unsigned_take_bit_eq unsigned_word_eqI)

lemma usage_field_take_bit:
  "take_bit (LRU_USAGE_WIDTH L) (drop_bit (LRU_USAGE_PGOFF L) (w AND LRU_USAGE_MASK L))
   = drop_bit (LRU_USAGE_PGOFF L) (w AND LRU_USAGE_MASK L)"
  by (rule bit_word_eqI) (auto simp: bit_simps bit_LRU_USAGE_MASK)

lemma usage_field_push_bit:
  "push_bit (LRU_USAGE_PGOFF L) (drop_bit (LRU_USAGE_PGOFF L) (w AND LRU_USAGE_MASK L))
   = w AND LRU_USAGE_MASK L"
  by (rule bit_word_eqI) (auto simp: bit_simps bit_LRU_USAGE_MASK)

text \<open>Writing a value that fits the field, and reading it back.\<close>

lemma usage_field_write:
  assumes "LRU_USAGE_PGOFF L + LRU_USAGE_WIDTH L < 64" and "take_bit (LRU_USAGE_WIDTH L) y = y"
  shows "drop_bit (LRU_USAGE_PGOFF L)
           (((old AND NOT (LRU_USAGE_MASK L)) OR push_bit (LRU_USAGE_PGOFF L) y)
            AND LRU_USAGE_MASK L) = y"
proof (rule bit_word_eqI)
  fix n assume "n < LENGTH(64)"
  have y: "bit y n \<longleftrightarrow> n < LRU_USAGE_WIDTH L \<and> bit y n"
    using assms(2) by (metis bit_take_bit_iff)
  show "bit (drop_bit (LRU_USAGE_PGOFF L)
           (((old AND NOT (LRU_USAGE_MASK L)) OR push_bit (LRU_USAGE_PGOFF L) y)
            AND LRU_USAGE_MASK L)) n = bit y n"
    using assms(1) y by (auto simp: bit_simps bit_LRU_USAGE_MASK)
qed

lemma usage_field_in_mask:
  assumes "LRU_USAGE_PGOFF L + LRU_USAGE_WIDTH L < 64" and "take_bit (LRU_USAGE_WIDTH L) y = y"
    and "bit (push_bit (LRU_USAGE_PGOFF L) (y :: 64 word)) n"
  shows "bit (LRU_USAGE_MASK L) n"
proof -
  have y: "bit y m \<Longrightarrow> m < LRU_USAGE_WIDTH L" for m
    using assms(2) by (metis bit_take_bit_iff)
  from assms(3) have "LRU_USAGE_PGOFF L \<le> n" "n < 64" "bit y (n - LRU_USAGE_PGOFF L)"
    by (simp_all add: bit_push_bit_iff)
  with y [of "n - LRU_USAGE_PGOFF L"] show ?thesis by (simp add: bit_LRU_USAGE_MASK)
qed

text \<open>The saturating increment of lines 324 and 325.\<close>

lemma usage_increment:
  assumes "LRU_USAGE_PGOFF L + LRU_USAGE_WIDTH L < 64"
  shows "\<exists>y. take_bit (LRU_USAGE_WIDTH L) y = y \<and>
             unat y = min (flags_usage L old + 1) (2 ^ LRU_USAGE_WIDTH L - 1) \<and>
             min (LRU_USAGE_MASK L) ((old AND LRU_USAGE_MASK L) + BIT (LRU_USAGE_PGOFF L))
             = push_bit (LRU_USAGE_PGOFF L) y"
proof -
  let ?off = "LRU_USAGE_PGOFF L" and ?w = "LRU_USAGE_WIDTH L"
  let ?S = "(old AND LRU_USAGE_MASK L) + BIT ?off"
  define f where "f = drop_bit ?off (old AND LRU_USAGE_MASK L)"
  have fu: "flags_usage L old = unat f" by (simp only: flags_usage_def f_def)
  have ft: "take_bit ?w f = f" unfolding f_def by (rule usage_field_take_bit)
  have fp: "push_bit ?off f = old AND LRU_USAGE_MASK L"
    unfolding f_def by (rule usage_field_push_bit)
  from assms have w: "?w < 64" by linarith
  have f: "unat f < 2 ^ ?w" using ft by (rule unat_take_bit_less)
  have f1: "unat (f + 1) = unat f + 1" using f w by (rule unat_plus_1_small)
  then have f1le: "unat (f + 1) \<le> 2 ^ ?w" using f by linarith
  have m: "unat (mask ?w :: 64 word) = 2 ^ ?w - 1" using w by (rule unat_mask_small)
  then have mle: "unat (mask ?w :: 64 word) \<le> 2 ^ ?w" by simp
  have "?S = push_bit ?off f + push_bit ?off 1" by (simp only: fp BIT_def)
  then have S: "?S = push_bit ?off (f + 1)" by (simp only: push_bit_add)
  have uS: "unat ?S = (unat f + 1) * 2 ^ ?off"
    using unat_push_bit_small [OF f1le assms] by (simp only: S f1)
  have uM: "unat (LRU_USAGE_MASK L) = (2 ^ ?w - 1) * 2 ^ ?off"
    using unat_push_bit_small [OF mle assms] by (simp only: LRU_USAGE_MASK_def m)
  show ?thesis
  proof (cases "unat f + 1 \<le> 2 ^ ?w - 1")
    case True
    then have "unat ?S \<le> unat (LRU_USAGE_MASK L)" by (simp only: uS uM mult_le_mono1)
    then have "?S \<le> LRU_USAGE_MASK L" by (simp only: word_le_nat_alt)
    then have "min (LRU_USAGE_MASK L) ?S = ?S" by (rule min_absorb2)
    then have 3: "min (LRU_USAGE_MASK L) ?S = push_bit ?off (f + 1)" by (simp only: S)
    from True have "unat (f + 1) < 2 ^ ?w" unfolding f1 by linarith
    then have 1: "take_bit ?w (f + 1) = f + 1" by (rule take_bit_of_unat_less)
    from True have 2: "unat (f + 1) = min (flags_usage L old + 1) (2 ^ ?w - 1)"
      unfolding f1 fu by linarith
    from 1 2 3 show ?thesis by blast
  next
    case False
    with f have e: "unat f = 2 ^ ?w - 1" by linarith
    have "(2 ^ ?w - 1) * 2 ^ ?off < (2 ^ ?w - 1 + 1) * (2::nat) ^ ?off" by simp
    then have "unat (LRU_USAGE_MASK L) < unat ?S" by (simp only: uS uM e)
    then have "unat (LRU_USAGE_MASK L) \<le> unat ?S" by (rule less_imp_le)
    then have "LRU_USAGE_MASK L \<le> ?S" by (simp only: word_le_nat_alt)
    then have "min (LRU_USAGE_MASK L) ?S = LRU_USAGE_MASK L" by (rule min_absorb1)
    then have 3: "min (LRU_USAGE_MASK L) ?S = push_bit ?off (mask ?w)"
      by (simp only: LRU_USAGE_MASK_def)
    have "unat (mask ?w :: 64 word) < 2 ^ ?w" unfolding m by simp
    then have 1: "take_bit ?w (mask ?w :: 64 word) = mask ?w" by (rule take_bit_of_unat_less)
    have 2: "unat (mask ?w :: 64 word) = min (flags_usage L old + 1) (2 ^ ?w - 1)"
      unfolding m fu e by simp
    from 1 2 3 show ?thesis by blast
  qed
qed

lemma flags_usage_bound:
  assumes "LRU_USAGE_PGOFF L + LRU_USAGE_WIDTH L < 64"
  shows "flags_usage L w \<le> 2 ^ LRU_USAGE_WIDTH L - 1"
proof -
  have "unat (drop_bit (LRU_USAGE_PGOFF L) (w AND LRU_USAGE_MASK L)) < 2 ^ LRU_USAGE_WIDTH L"
    using usage_field_take_bit by (rule unat_take_bit_less)
  then show ?thesis unfolding flags_usage_def by linarith
qed

text \<open>The word that \<open>page_inc_usage\<close> writes when the generations are enabled.\<close>

lemma page_inc_usage_enabled:
  assumes "LRU_USAGE_PGOFF L + LRU_USAGE_WIDTH L < 64"
  shows "\<exists>y. take_bit (LRU_USAGE_WIDTH L) y = y \<and>
             unat y = min (flags_usage L (flags p) + 1) (2 ^ LRU_USAGE_WIDTH L - 1) \<and>
             page_inc_usage L True p =
               (True, p\<lparr>flags := (if \<not> bit (flags p) (PG_workingset L)
                                    then flags p OR BIT (PG_workingset L)
                                    else (flags p AND NOT (LRU_USAGE_MASK L)) OR
                                         push_bit (LRU_USAGE_PGOFF L) y)\<rparr>)"
proof -
  from usage_increment [OF assms, of "flags p"]
  obtain y where y: "take_bit (LRU_USAGE_WIDTH L) y = y"
    "unat y = min (flags_usage L (flags p) + 1) (2 ^ LRU_USAGE_WIDTH L - 1)"
    "min (LRU_USAGE_MASK L) ((flags p AND LRU_USAGE_MASK L) + BIT (LRU_USAGE_PGOFF L))
       = push_bit (LRU_USAGE_PGOFF L) y"
    by blast
  have "page_inc_usage L True p =
               (True, p\<lparr>flags := (if \<not> bit (flags p) (PG_workingset L)
                                    then flags p OR BIT (PG_workingset L)
                                    else (flags p AND NOT (LRU_USAGE_MASK L)) OR
                                         push_bit (LRU_USAGE_PGOFF L) y)\<rparr>)"
    by (simp add: page_inc_usage_def Let_def and_BIT_eq_0 y(3))
  with y(1,2) show ?thesis by blast
qed

text \<open>\<open>page_inc_usage\<close> writes the workingset bit and the usage field only.\<close>

lemma page_inc_usage_other_bits:
  assumes "LRU_USAGE_PGOFF L + LRU_USAGE_WIDTH L < 64"
    and "\<not> bit (LRU_USAGE_MASK L) n" and "n \<noteq> PG_workingset L"
  shows "bit (flags (snd (page_inc_usage L e p))) n = bit (flags p) n"
proof (cases e)
  case False
  then show ?thesis by (simp add: page_inc_usage_def)
next
  case True
  from page_inc_usage_enabled [OF assms(1), of p]
  obtain y where y: "take_bit (LRU_USAGE_WIDTH L) y = y"
    and r: "page_inc_usage L True p =
               (True, p\<lparr>flags := (if \<not> bit (flags p) (PG_workingset L)
                                    then flags p OR BIT (PG_workingset L)
                                    else (flags p AND NOT (LRU_USAGE_MASK L)) OR
                                         push_bit (LRU_USAGE_PGOFF L) y)\<rparr>)"
    by blast
  have "\<not> bit (push_bit (LRU_USAGE_PGOFF L) y) n"
    using usage_field_in_mask [OF assms(1) y, of n] assms(2) by blast
  then show ?thesis using assms(2,3)
    by (auto simp add: True r bit_or_iff bit_and_iff bit_not_iff bit_BIT dest: bit_imp_le_length)
qed

lemma or_BIT_usage:
  assumes "\<not> bit (LRU_USAGE_MASK L) n"
  shows "flags_usage L (w OR BIT n) = flags_usage L w"
proof -
  have "(w OR BIT n) AND LRU_USAGE_MASK L = w AND LRU_USAGE_MASK L"
    using assms by (intro bit_word_eqI) (auto simp: bit_or_iff bit_and_iff bit_BIT)
  then show ?thesis by (simp only: flags_usage_def)
qed

lemma lru_size_updates_sizes_add: "lru_size_updates (sizes_add lv k d) = lru_size_updates lv"
  by (simp add: sizes_add_def)

section \<open>Claims\<close>

text \<open>
  C9. \<open>lru_gen_addition\<close> returns false exactly when the page is unevictable or the
  generations are disabled for the type of the page, and then the page and the lruvec
  (the size counters, the lists and the recorded size updates) are returned as they were.
\<close>

theorem lru_gen_addition_rejects:
  "((\<exists>p' lv'. lru_gen_addition L p lv front = Inr (False, p', lv')) \<longleftrightarrow>
      (PageUnevictable L p \<or> \<not> enabled (evictable lv) (page_is_file_lru L p))) \<and>
   (PageUnevictable L p \<or> \<not> enabled (evictable lv) (page_is_file_lru L p) \<longrightarrow>
      lru_gen_addition L p lv front = Inr (False, p, lv))"
  by (auto simp: lru_gen_addition_def Let_def split: sum.splits)

theorem lru_gen_addition_rejects_witness:
  "PageUnevictable L0 page_unevictable \<and>
   lru_gen_addition L0 page_unevictable lv0 True = Inr (False, page_unevictable, lv0) \<and>
   \<not> (PageUnevictable L0 page_file \<or> \<not> enabled (evictable lv0) (page_is_file_lru L0 page_file)) \<and>
   (\<forall>p' lv'. lru_gen_addition L0 page_file lv0 True \<noteq> Inr (False, p', lv'))"
proof -
  have u: "PageUnevictable L0 page_unevictable"
    by (simp add: PageUnevictable_def L0_def page_unevictable_def)
  have f: "\<not> (PageUnevictable L0 page_file \<or>
              \<not> enabled (evictable lv0) (page_is_file_lru L0 page_file))"
    by (simp add: PageUnevictable_def L0_def page_file_def lv0_def)
  from u f lru_gen_addition_rejects [of L0 page_unevictable lv0 True]
    lru_gen_addition_rejects [of L0 page_file lv0 True]
  show ?thesis by blast
qed

text \<open>
  C1. When \<open>lru_gen_addition\<close> accepts a page, the generation it stores in the page is:
  the one of \<open>max_seq\<close> if the page was active; else the one of \<open>min_seq[type] + 1\<close> if
  the page is anon and not in the swap cache, or under reclaim and dirty or under
  writeback, or not referenced and workingset; else the one of \<open>min_seq[type]\<close>. The page
  is linked on the list of that generation, its type and its zone, and that size counter
  grows by the number of pages. Sequence numbers are \<open>unsigned long\<close>.
\<close>

theorem lru_gen_addition_generation:
  assumes "layout_ok L" and "lru_gen_addition L p lv front = Inr (True, p', lv')"
  shows "page_lru_gen L p' =
     (if PageActive L p then int (unat (max_seq (evictable lv)) mod MAX_NR_GENS L)
      else if (page_is_file_lru L p = 0 \<and> \<not> PageSwapCache L p) \<or>
              (PageReclaim L p \<and> (PageDirty L p \<or> PageWriteback L p)) \<or>
              (\<not> PageReferenced L p \<and> PageWorkingset L p)
      then int (unat (min_seq (evictable lv) (page_is_file_lru L p) + 1) mod MAX_NR_GENS L)
      else int (unat (min_seq (evictable lv) (page_is_file_lru L p)) mod MAX_NR_GENS L)) \<and>
     page_id p \<in> set (lrugen_lists (evictable lv')
        (nat (page_lru_gen L p'), page_is_file_lru L p, page_zonenum p)) \<and>
     sizes (evictable lv') (nat (page_lru_gen L p'), page_is_file_lru L p, page_zonenum p) =
     sizes (evictable lv) (nat (page_lru_gen L p'), page_is_file_lru L p, page_zonenum p) +
     thp_nr_pages p"
proof -
  let ?g = "lru_gen_addition_gen L p lv"
  have g: "0 \<le> ?g" "?g < int (MAX_NR_GENS L)"
    using assms(1) by (rule lru_gen_addition_gen_range)+
  from assms(2) have p': "p' = p\<lparr>flags := lru_gen_addition_flags L ?g (flags p)\<rparr>"
    by (simp add: lru_gen_addition_eq [OF assms(1)] Let_def split: if_splits)
  have "flags_lru_gen L (lru_gen_addition_flags L ?g (flags p)) = ?g"
    using assms(1) g by (rule addition_flags_tracked)
  with p' have gen: "page_lru_gen L p' = ?g" by (simp add: page_lru_gen_def)
  have 1: "?g =
     (if PageActive L p then int (unat (max_seq (evictable lv)) mod MAX_NR_GENS L)
      else if (page_is_file_lru L p = 0 \<and> \<not> PageSwapCache L p) \<or>
              (PageReclaim L p \<and> (PageDirty L p \<or> PageWriteback L p)) \<or>
              (\<not> PageReferenced L p \<and> PageWorkingset L p)
      then int (unat (min_seq (evictable lv) (page_is_file_lru L p) + 1) mod MAX_NR_GENS L)
      else int (unat (min_seq (evictable lv) (page_is_file_lru L p)) mod MAX_NR_GENS L))"
    by (auto simp add: lru_gen_addition_gen_def Let_def lru_gen_from_seq_def)
  from assms(2) have 2: "page_id p \<in> set (lrugen_lists (evictable lv')
        (nat ?g, page_is_file_lru L p, page_zonenum p))"
    by (auto simp add: lru_gen_addition_eq [OF assms(1)] Let_def list_add_def list_add_tail_def
        split: if_splits)
  from assms(2) have 3: "sizes (evictable lv') (nat ?g, page_is_file_lru L p, page_zonenum p) =
     sizes (evictable lv) (nat ?g, page_is_file_lru L p, page_zonenum p) + thp_nr_pages p"
    by (auto simp add: lru_gen_addition_eq [OF assms(1)] Let_def list_add_def list_add_tail_def
        update_lru_size_def sizes_add_def split: if_splits)
  from 1 2 3 show ?thesis by (simp only: gen) 
qed


theorem lru_gen_addition_generation_witness:
  "layout_ok L0 \<and>
   (\<exists>p' lv'. lru_gen_addition L0 page_anon lv0 True = Inr (True, p', lv') \<and>
      page_lru_gen L0 p' = 0 \<and>
      page_id page_anon \<in> set (lrugen_lists (evictable lv') (0, 0, 0)) \<and>
      sizes (evictable lv') (0, 0, 0) = 512)"
proof -
  have "max_seq (evictable lv0) \<noteq> 0" by (simp add: lv0_facts)
  with L0_ok page_anon_facts(1) lv0_facts(1) page_anon_facts(5)
  obtain p' lv' where add: "lru_gen_addition L0 page_anon lv0 True = Inr (True, p', lv')"
    using lru_gen_addition_accepts by blast
  have n: "MAX_NR_GENS L0 = 4" by (simp add: L0_def)
  from lru_gen_addition_generation [OF L0_ok add]
  have "page_lru_gen L0 p' = 0 \<and>
      page_id page_anon \<in> set (lrugen_lists (evictable lv') (0, 0, 0)) \<and>
      sizes (evictable lv') (0, 0, 0) = 512"
    by (auto simp add: page_anon_facts lv0_facts n)
  with add L0_ok show ?thesis by blast
qed

text \<open>
  C6. \<open>lru_gen_deletion\<close> returns false exactly when the generation field of the page is
  zero, which is when \<open>page_lru_gen\<close> is -1, and then the page and the lruvec are returned
  as they were. When it returns true, the generation field of the page is zero afterwards,
  and the active bit of the page is set exactly when the generation it carried is the one
  of \<open>max_seq\<close> or of \<open>max_seq - 1\<close>, which is when \<open>lru_gen_is_active\<close> holds of it.
\<close>

theorem lru_gen_deletion_result:
  assumes "layout_ok L"
  shows "((\<exists>p' lv'. lru_gen_deletion L p lv = Inr (False, p', lv')) \<longleftrightarrow>
            flags p AND LRU_GEN_MASK L = 0) \<and>
         (flags p AND LRU_GEN_MASK L = 0 \<longleftrightarrow> page_lru_gen L p = - 1) \<and>
         (flags p AND LRU_GEN_MASK L = 0 \<longrightarrow> lru_gen_deletion L p lv = Inr (False, p, lv)) \<and>
         (\<forall>p' lv'. lru_gen_deletion L p lv = Inr (True, p', lv') \<longrightarrow>
            flags p' AND LRU_GEN_MASK L = 0 \<and> page_lru_gen L p' = - 1 \<and>
            (PageActive L p' \<longleftrightarrow>
               page_lru_gen L p = lru_gen_from_seq L (max_seq (evictable lv)) \<or>
               page_lru_gen L p = lru_gen_from_seq L (max_seq (evictable lv) - 1)) \<and>
            (PageActive L p' \<longleftrightarrow> lru_gen_is_active L lv (page_lru_gen L p) = Inr True))"
proof -
  from assms have w: "LRU_GEN_WIDTH L \<le> 31" by (simp add: layout_ok_def)
  have 1: "(\<exists>p' lv'. lru_gen_deletion L p lv = Inr (False, p', lv')) \<longleftrightarrow>
            flags p AND LRU_GEN_MASK L = 0"
    by (auto simp add: lru_gen_deletion_eq [OF assms] Let_def split: if_splits)
  have 2: "flags p AND LRU_GEN_MASK L = 0 \<longleftrightarrow> page_lru_gen L p = - 1"
    by (simp only: page_lru_gen_def flags_lru_gen_untracked_iff [OF w])
  have 3: "flags p AND LRU_GEN_MASK L = 0 \<longrightarrow> lru_gen_deletion L p lv = Inr (False, p, lv)"
    by (simp add: lru_gen_deletion_def Let_def)
  have 4: "flags p' AND LRU_GEN_MASK L = 0 \<and> page_lru_gen L p' = - 1 \<and>
            (PageActive L p' \<longleftrightarrow>
               page_lru_gen L p = lru_gen_from_seq L (max_seq (evictable lv)) \<or>
               page_lru_gen L p = lru_gen_from_seq L (max_seq (evictable lv) - 1)) \<and>
            (PageActive L p' \<longleftrightarrow> lru_gen_is_active L lv (page_lru_gen L p) = Inr True)"
    if del: "lru_gen_deletion L p lv = Inr (True, p', lv')" for p' lv'
  proof -
    let ?g = "flags_lru_gen L (flags p)"
    let ?a = "?g = lru_gen_from_seq L (max_seq (evictable lv)) \<or>
              ?g = lru_gen_from_seq L (max_seq (evictable lv) - 1)"
    let ?new = "if ?a then (flags p AND NOT (LRU_GEN_MASK L)) OR BIT (PG_active L)
                else flags p AND NOT (LRU_GEN_MASK L)"
    from del have c: "\<not> PageActive L p" "max_seq (evictable lv) \<noteq> 0" "?g < int (MAX_NR_GENS L)"
      and p': "p' = p\<lparr>flags := ?new\<rparr>"
      by (auto simp add: lru_gen_deletion_eq [OF assms] Let_def split: if_splits)
    have u: "?new AND LRU_GEN_MASK L = 0" using assms by (rule deletion_flags_untracked)
    then have g': "flags_lru_gen L ?new = - 1" by (simp only: flags_lru_gen_untracked_iff [OF w])
    from c(1) have "\<not> bit (flags p) (PG_active L)" by (simp add: PageActive_def)
    with assms have "bit ?new (PG_active L) \<longleftrightarrow> ?a" by (rule deletion_flags_active)
    then have act: "PageActive L p' \<longleftrightarrow> ?a" by (simp only: p' PageActive_def) simp
    have "lru_gen_is_active L lv ?g = Inr ?a" using c(3,2) by (rule lru_gen_is_active_eq)
    then have ia: "lru_gen_is_active L lv ?g = Inr True \<longleftrightarrow> ?a" by simp
    from u g' act ia show ?thesis by (simp add: p' page_lru_gen_def)
  qed
  from 1 2 3 4 show ?thesis by blast
qed

theorem lru_gen_deletion_result_witness:
  "layout_ok L0 \<and>
   flags page_file AND LRU_GEN_MASK L0 = 0 \<and>
   lru_gen_deletion L0 page_file lv0 = Inr (False, page_file, lv0) \<and>
   (\<exists>p' lv'. lru_gen_deletion L0 page_tracked lv0 = Inr (True, p', lv') \<and>
      page_lru_gen L0 page_tracked = lru_gen_from_seq L0 (max_seq (evictable lv0)) \<and>
      PageActive L0 p' \<and> page_lru_gen L0 p' = - 1)"
proof -
  have "max_seq (evictable lv0) \<noteq> 0" by (simp add: lv0_facts)
  moreover have "MAX_NR_GENS L0 = 4" by (simp add: L0_def)
  then have "flags_lru_gen L0 (flags page_tracked) < int (MAX_NR_GENS L0)"
    by (simp add: page_tracked_facts)
  ultimately obtain p' lv' where del: "lru_gen_deletion L0 page_tracked lv0 = Inr (True, p', lv')"
    using lru_gen_deletion_accepts [OF L0_ok page_tracked_facts(3,2,1)] by blast
  have g: "page_lru_gen L0 page_tracked = lru_gen_from_seq L0 (max_seq (evictable lv0))"
    by (simp add: page_tracked_facts lru_gen_from_seq_lv0)
  from lru_gen_deletion_result [OF L0_ok, of page_tracked lv0] del g
  have "PageActive L0 p' \<and> page_lru_gen L0 p' = - 1" by blast
  moreover from lru_gen_deletion_result [OF L0_ok, of page_file lv0] page_file_facts(3)
  have "lru_gen_deletion L0 page_file lv0 = Inr (False, page_file, lv0)" by blast
  ultimately show ?thesis using L0_ok page_file_facts(3) del g by blast
qed

text \<open>
  C5. When \<open>lru_gen_addition\<close> has accepted a page that was on none of the lists, the
  \<open>lru_gen_deletion\<close> of the page it wrote, from the lruvec it left, returns true and leaves
  the \<open>lrugen\<close> as it was before the addition: every size counter and every list, and the
  sequence numbers. \<open>page_lru_gen\<close> of the page is then -1.
\<close>

theorem lru_gen_addition_then_deletion:
  assumes "layout_ok L" and "lru_gen_addition L p lv front = Inr (True, p', lv')"
    and "\<forall>k. page_id p \<notin> set (lrugen_lists (evictable lv) k)"
  shows "\<exists>p'' lv''. lru_gen_deletion L p' lv' = Inr (True, p'', lv'') \<and>
           sizes (evictable lv'') = sizes (evictable lv) \<and>
           lrugen_lists (evictable lv'') = lrugen_lists (evictable lv) \<and>
           evictable lv'' = evictable lv \<and>
           page_lru_gen L p'' = - 1"
proof -
  let ?g = "lru_gen_addition_gen L p lv"
  let ?new = "lru_gen_addition_flags L ?g (flags p)"
  let ?k = "(nat ?g, page_is_file_lru L p, page_zonenum p)"
  let ?a = "?g = lru_gen_from_seq L (max_seq (evictable lv)) \<or>
            ?g = lru_gen_from_seq L (max_seq (evictable lv) - 1)"
  let ?lru = "if ?a then LRU_FILE L * page_is_file_lru L p + LRU_ACTIVE L
              else LRU_FILE L * page_is_file_lru L p"
  let ?u = "update_lru_size (sizes_add lv ?k (thp_nr_pages p)) ?lru (page_zonenum p) (thp_nr_pages p)"
  from assms(1) have w: "LRU_GEN_WIDTH L \<le> 31" by (simp add: layout_ok_def)
  have g: "0 \<le> ?g" "?g < int (MAX_NR_GENS L)"
    using assms(1) by (rule lru_gen_addition_gen_range)+
  from assms(2) have pre: "\<not> PageUnevictable L p" "max_seq (evictable lv) \<noteq> 0"
    and p': "p' = p\<lparr>flags := ?new\<rparr>"
    and lv': "lv' = (if front then list_add (page_id p) ?k ?u else list_add_tail (page_id p) ?k ?u)"
    by (auto simp add: lru_gen_addition_eq [OF assms(1)] Let_def split: if_splits)
  have tracked: "?new AND LRU_GEN_MASK L \<noteq> 0" and gen: "flags_lru_gen L ?new = ?g"
    using assms(1) g by (rule addition_flags_tracked)+
  have "\<not> bit ?new (PG_active L)" using assms(1) g by (rule addition_flags_active)
  then have na: "\<not> PageActive L p'" by (simp add: p' PageActive_def)
  have "bit ?new (PG_unevictable L) = bit (flags p) (PG_unevictable L)"
    using assms(1) g by (rule addition_flags_unevictable)
  with pre(1) have nu: "\<not> PageUnevictable L p'" by (simp add: p' PageUnevictable_def)
  have fl: "page_is_file_lru L p' = page_is_file_lru L p"
    unfolding p' using assms(1) g by (rule page_is_file_lru_added)
  have ms: "max_seq (evictable lv') = max_seq (evictable lv)"
    by (simp add: lv' list_add_def list_add_tail_def update_lru_size_def sizes_add_def)
  let ?new2 = "if ?a then (?new AND NOT (LRU_GEN_MASK L)) OR BIT (PG_active L)
               else ?new AND NOT (LRU_GEN_MASK L)"
  let ?lv'' = "list_del (page_id p)
                 (update_lru_size (sizes_add lv' ?k (- thp_nr_pages p)) ?lru (page_zonenum p)
                    (- thp_nr_pages p))"
  have fp: "flags p' = ?new" by (simp add: p')
  have a': "?a \<longleftrightarrow> ?g = lru_gen_from_seq L (max_seq (evictable lv')) \<or>
                  ?g = lru_gen_from_seq L (max_seq (evictable lv') - 1)"
    by (simp only: ms)
  have "lru_gen_deletion L p' lv' =
     Inr (True,
          p'\<lparr>flags := (if ?a then (flags p' AND NOT (LRU_GEN_MASK L)) OR BIT (PG_active L)
                       else flags p' AND NOT (LRU_GEN_MASK L))\<rparr>, ?lv'')"
  proof (rule lru_gen_deletion_True [OF assms(1) _ na nu _ _ g(2) a' fl])
    show "flags p' AND LRU_GEN_MASK L \<noteq> 0" unfolding fp by (rule tracked)
    show "max_seq (evictable lv') \<noteq> 0" unfolding ms by (rule pre(2))
    show "flags_lru_gen L (flags p') = ?g" unfolding fp by (rule gen)
  qed (simp_all add: p')
  then have del: "lru_gen_deletion L p' lv' = Inr (True, p'\<lparr>flags := ?new2\<rparr>, ?lv'')"
    by (simp only: fp)
  have sz: "sizes (evictable ?lv'') = sizes (evictable lv)"
    by (simp add: lv' list_del_def list_add_def list_add_tail_def update_lru_size_def
        sizes_add_def sizes_restored)
  have li: "lrugen_lists (evictable ?lv'') = lrugen_lists (evictable lv)"
    using assms(3)
    by (auto simp add: lv' list_del_def list_add_def list_add_tail_def update_lru_size_def
        sizes_add_def fun_eq_iff remove1_idem remove1_append)
  have ev: "evictable ?lv'' = evictable lv"
  proof (rule lrugen.equality)
    show "sizes (evictable ?lv'') = sizes (evictable lv)" by (rule sz)
    show "lrugen_lists (evictable ?lv'') = lrugen_lists (evictable lv)" by (rule li)
  qed (simp_all add: lv' list_del_def list_add_def list_add_tail_def update_lru_size_def
        sizes_add_def)
  have "?new2 AND LRU_GEN_MASK L = 0" using assms(1) by (rule deletion_flags_untracked)
  then have "flags_lru_gen L ?new2 = - 1" by (simp only: flags_lru_gen_untracked_iff [OF w])
  then have un: "page_lru_gen L (p'\<lparr>flags := ?new2\<rparr>) = - 1" by (simp add: page_lru_gen_def)
  from del sz li ev un show ?thesis by blast
qed

theorem lru_gen_addition_then_deletion_witness:
  "layout_ok L0 \<and> (\<forall>k. page_id page_file \<notin> set (lrugen_lists (evictable lv0) k)) \<and>
   (\<exists>p' lv'. lru_gen_addition L0 page_file lv0 False = Inr (True, p', lv') \<and>
      (\<exists>p'' lv''. lru_gen_deletion L0 p' lv' = Inr (True, p'', lv'') \<and>
         sizes (evictable lv'') = sizes (evictable lv0) \<and>
         lrugen_lists (evictable lv'') = lrugen_lists (evictable lv0) \<and>
         page_lru_gen L0 p'' = - 1))"
proof -
  have n: "\<forall>k. page_id page_file \<notin> set (lrugen_lists (evictable lv0) k)"
    by (simp add: lv0_facts)
  have "max_seq (evictable lv0) \<noteq> 0" by (simp add: lv0_facts)
  with L0_ok page_file_facts(1) lv0_facts(1) page_file_facts(3)
  obtain p' lv' where add: "lru_gen_addition L0 page_file lv0 False = Inr (True, p', lv')"
    using lru_gen_addition_accepts by blast
  from lru_gen_addition_then_deletion [OF L0_ok add n] add L0_ok n show ?thesis by blast
qed

text \<open>
  C8. The word that \<open>lru_gen_addition\<close> writes differs from the word it read only in the
  bits of \<open>LRU_GEN_MASK\<close>, in the active bit and, when the referenced bit of the word read
  is clear, in the bits of \<open>LRU_USAGE_MASK\<close> and in the bits of \<open>LRU_TIER_FLAGS\<close>: the
  usage field and the tier flags, which line 207 clears together and which are then all
  zero in the word written. When the referenced bit is set, the usage field and the tier
  flags are kept as well. Nothing else of the page changes.
\<close>

theorem lru_gen_addition_frame:
  assumes "layout_ok L" and "lru_gen_addition L p lv front = Inr (True, p', lv')"
  shows "(\<forall>n. \<not> bit (LRU_GEN_MASK L) n \<and> n \<noteq> PG_active L \<and>
              (PageReferenced L p \<or> \<not> bit (LRU_USAGE_MASK L OR LRU_TIER_FLAGS L) n) \<longrightarrow>
              bit (flags p') n = bit (flags p) n) \<and>
         (\<not> PageReferenced L p \<longrightarrow> flags p' AND (LRU_USAGE_MASK L OR LRU_TIER_FLAGS L) = 0) \<and>
         p' = p\<lparr>flags := flags p'\<rparr>"
proof -
  let ?g = "lru_gen_addition_gen L p lv"
  let ?G = "push_bit (LRU_GEN_PGOFF L) (word_of_int ?g + 1 :: 64 word)"
  have g: "0 \<le> ?g" "?g < int (MAX_NR_GENS L)"
    using assms(1) by (rule lru_gen_addition_gen_range)+
  from assms(2) have p': "p' = p\<lparr>flags := lru_gen_addition_flags L ?g (flags p)\<rparr>"
    by (auto simp add: lru_gen_addition_eq [OF assms(1)] Let_def split: if_splits)
  then have fp: "flags p' = lru_gen_addition_flags L ?g (flags p)" by simp
  have in_mask: "bit ?G n \<Longrightarrow> bit (LRU_GEN_MASK L) n" for n
    using assms(1) g by (rule gen_bits_in_mask)
  have 1: "bit (flags p') n = bit (flags p) n"
    if "\<not> bit (LRU_GEN_MASK L) n \<and> n \<noteq> PG_active L \<and>
        (PageReferenced L p \<or> \<not> bit (LRU_USAGE_MASK L OR LRU_TIER_FLAGS L) n)" for n
    using that in_mask [of n]
    by (simp only: fp bit_lru_gen_addition_flags PageReferenced_def bit_or_iff) blast
  have 2: "flags p' AND (LRU_USAGE_MASK L OR LRU_TIER_FLAGS L) = 0" if "\<not> PageReferenced L p"
  proof (rule bit_word_eqI)
    fix n
    from that show "bit (flags p' AND (LRU_USAGE_MASK L OR LRU_TIER_FLAGS L)) n = bit (0::64 word) n"
      by (auto simp add: fp bit_and_iff bit_or_iff bit_lru_gen_addition_flags PageReferenced_def)
  qed
  have 3: "p' = p\<lparr>flags := flags p'\<rparr>" by (simp add: p')
  from 1 2 3 show ?thesis by blast
qed

theorem lru_gen_addition_frame_witness:
  "layout_ok L0 \<and> PageReferenced L0 page_seen \<and> \<not> PageReferenced L0 page_unseen \<and>
   (\<exists>p' lv'. lru_gen_addition L0 page_seen lv0 True = Inr (True, p', lv') \<and>
      bit (flags p') 0 \<and> bit (flags p') 3 \<and> PageReferenced L0 p' \<and> PageWorkingset L0 p' \<and>
      bit (flags p') 41 \<and> \<not> bit (flags p') 40) \<and>
   (\<exists>p' lv'. lru_gen_addition L0 page_unseen lv0 True = Inr (True, p', lv') \<and>
      flags p' AND (LRU_USAGE_MASK L0 OR LRU_TIER_FLAGS L0) = 0 \<and>
      bit (flags p') 0 \<and> bit (flags p') 3 \<and> \<not> bit (flags p') 2)"
proof -
  have nz: "max_seq (evictable lv0) \<noteq> 0" by (simp add: lv0_facts)
  have s: "\<not> PageUnevictable L0 page_seen" "flags page_seen AND LRU_GEN_MASK L0 = 0"
    "PageReferenced L0 page_seen" "bit (flags page_seen) 0" "bit (flags page_seen) 3"
    "bit (flags page_seen) 1" "bit (flags page_seen) 6" "bit (flags page_seen) 41"
    "\<not> bit (flags page_seen) 40"
    by code_simp+
  have u: "\<not> PageUnevictable L0 page_unseen" "flags page_unseen AND LRU_GEN_MASK L0 = 0"
    "\<not> PageReferenced L0 page_unseen" "bit (flags page_unseen) 0" "bit (flags page_unseen) 3"
    "\<not> bit (flags page_unseen) 2"
    by code_simp+
  have c: "PG_active L0 = 5" "PG_referenced L0 = 1" "PG_workingset L0 = 6"
    by (simp_all add: L0_def)
  have g: "\<not> bit (LRU_GEN_MASK L0) n" if "n < 42" for n
    using that by (simp add: bit_LRU_GEN_MASK L0_def)
  have m: "\<not> bit (LRU_USAGE_MASK L0 OR LRU_TIER_FLAGS L0) 0"
    "\<not> bit (LRU_USAGE_MASK L0 OR LRU_TIER_FLAGS L0) 2"
    "\<not> bit (LRU_USAGE_MASK L0 OR LRU_TIER_FLAGS L0) 3"
    by (simp_all add: bit_or_iff bit_LRU_USAGE_MASK L0_def)
  from L0_ok s(1) lv0_facts(1) s(2) nz
  obtain p1 lv1 where a1: "lru_gen_addition L0 page_seen lv0 True = Inr (True, p1, lv1)"
    using lru_gen_addition_accepts by blast
  from L0_ok u(1) lv0_facts(1) u(2) nz
  obtain p2 lv2 where a2: "lru_gen_addition L0 page_unseen lv0 True = Inr (True, p2, lv2)"
    using lru_gen_addition_accepts by blast
  from lru_gen_addition_frame [OF L0_ok a1] s(3)
  have k: "\<not> bit (LRU_GEN_MASK L0) n \<and> n \<noteq> PG_active L0 \<longrightarrow>
           bit (flags p1) n = bit (flags page_seen) n" for n
    by blast
  have r1: "bit (flags p1) 0" "bit (flags p1) 3" "bit (flags p1) 1" "bit (flags p1) 6"
    "bit (flags p1) 41" "\<not> bit (flags p1) 40"
    using k [of 0] k [of 3] k [of 1] k [of 6] k [of 41] k [of 40] s(4-9)
    by (simp_all add: g c)
  then have r1': "PageReferenced L0 p1" "PageWorkingset L0 p1"
    by (simp_all add: PageReferenced_def PageWorkingset_def c)
  from lru_gen_addition_frame [OF L0_ok a2] u(3)
  have z: "flags p2 AND (LRU_USAGE_MASK L0 OR LRU_TIER_FLAGS L0) = 0"
    and k2: "\<not> bit (LRU_GEN_MASK L0) n \<and> n \<noteq> PG_active L0 \<and>
           \<not> bit (LRU_USAGE_MASK L0 OR LRU_TIER_FLAGS L0) n \<longrightarrow>
           bit (flags p2) n = bit (flags page_unseen) n" for n
    by blast+
  have r2: "bit (flags p2) 0" "bit (flags p2) 3" "\<not> bit (flags p2) 2"
    using k2 [of 0] k2 [of 3] k2 [of 2] u(4-6) m
    by (simp_all add: g c)
  from L0_ok s(3) u(3) a1 r1 r1' a2 z r2 show ?thesis by blast
qed

text \<open>
  C8, as stated, lets the write reset the usage field only. In \<open>L0\<close> the tier flags are the
  referenced and the workingset bit: the workingset bit is outside \<open>LRU_GEN_MASK\<close>, is not
  the active bit and is outside \<open>LRU_USAGE_MASK\<close>, and the addition of \<open>page_unseen\<close>
  clears it.
\<close>

theorem lru_gen_addition_frame_counterexample:
  "flags page_unseen = 2199023255625 \<and>
   \<not> isl (lru_gen_addition L0 page_unseen lv0 True) \<and>
   fst (projr (lru_gen_addition L0 page_unseen lv0 True)) \<and>
   flags (fst (snd (projr (lru_gen_addition L0 page_unseen lv0 True)))) = 4398046511113 \<and>
   \<not> bit (LRU_GEN_MASK L0) (PG_workingset L0) \<and>
   PG_workingset L0 \<noteq> PG_active L0 \<and>
   \<not> bit (LRU_USAGE_MASK L0) (PG_workingset L0) \<and>
   bit (flags page_unseen) (PG_workingset L0) \<and>
   \<not> bit (flags (fst (snd (projr (lru_gen_addition L0 page_unseen lv0 True)))))
        (PG_workingset L0)"
  by code_simp

text \<open>
  C10. A page whose generation field is not zero has its active bit clear, and the three
  functions that write the flags keep it so. \<open>lru_gen_addition\<close>, when it accepts a page,
  leaves the generation field set and the active bit clear, whatever the page was;
  \<open>lru_gen_deletion\<close>, when it returns true, leaves the generation field zero, so that the
  active bit it may set comes with the cleared generation; both return the page as it was
  when they return false. \<open>page_inc_usage\<close> changes neither the generation field nor the
  active bit.
\<close>

theorem gen_excludes_active_preserved:
  assumes "layout_ok L"
  shows "(\<forall>p' lv'. lru_gen_addition L p lv front = Inr (True, p', lv') \<longrightarrow>
            flags p' AND LRU_GEN_MASK L \<noteq> 0 \<and> \<not> PageActive L p' \<and> gen_excludes_active L p') \<and>
         (\<forall>p' lv'. lru_gen_addition L p lv front = Inr (False, p', lv') \<longrightarrow> p' = p) \<and>
         (\<forall>p' lv'. lru_gen_deletion L p lv = Inr (True, p', lv') \<longrightarrow>
            flags p' AND LRU_GEN_MASK L = 0 \<and> gen_excludes_active L p') \<and>
         (\<forall>p' lv'. lru_gen_deletion L p lv = Inr (False, p', lv') \<longrightarrow> p' = p) \<and>
         (flags (snd (page_inc_usage L e p)) AND LRU_GEN_MASK L = flags p AND LRU_GEN_MASK L \<and>
          PageActive L (snd (page_inc_usage L e p)) = PageActive L p) \<and>
         (gen_excludes_active L p \<longrightarrow> gen_excludes_active L (snd (page_inc_usage L e p)))"
proof -
  have 1: "flags p' AND LRU_GEN_MASK L \<noteq> 0 \<and> \<not> PageActive L p' \<and> gen_excludes_active L p'"
    if add: "lru_gen_addition L p lv front = Inr (True, p', lv')" for p' lv'
  proof -
    let ?g = "lru_gen_addition_gen L p lv"
    have g: "0 \<le> ?g" "?g < int (MAX_NR_GENS L)"
      using assms(1) by (rule lru_gen_addition_gen_range)+
    from add have fp: "flags p' = lru_gen_addition_flags L ?g (flags p)"
      by (auto simp add: lru_gen_addition_eq [OF assms(1)] Let_def split: if_splits)
    have "lru_gen_addition_flags L ?g (flags p) AND LRU_GEN_MASK L \<noteq> 0"
      using assms g by (rule addition_flags_tracked)
    moreover have "\<not> bit (lru_gen_addition_flags L ?g (flags p)) (PG_active L)"
      using assms g by (rule addition_flags_active)
    ultimately show ?thesis by (simp add: gen_excludes_active_def PageActive_def fp)
  qed
  have 2: "p' = p" if "lru_gen_addition L p lv front = Inr (False, p', lv')" for p' lv'
    using that by (auto simp: lru_gen_addition_def Let_def split: sum.splits if_splits)
  have 3: "flags p' AND LRU_GEN_MASK L = 0 \<and> gen_excludes_active L p'"
    if del: "lru_gen_deletion L p lv = Inr (True, p', lv')" for p' lv'
  proof -
    let ?g = "flags_lru_gen L (flags p)"
    let ?a = "?g = lru_gen_from_seq L (max_seq (evictable lv)) \<or>
              ?g = lru_gen_from_seq L (max_seq (evictable lv) - 1)"
    from del have "flags p' = (if ?a then (flags p AND NOT (LRU_GEN_MASK L)) OR BIT (PG_active L)
                    else flags p AND NOT (LRU_GEN_MASK L))"
      by (auto simp add: lru_gen_deletion_eq [OF assms] Let_def split: if_splits)
    then have "flags p' AND LRU_GEN_MASK L = 0"
      using deletion_flags_untracked [OF assms, of ?a "flags p"] by simp
    then show ?thesis by (simp add: gen_excludes_active_def)
  qed
  have 4: "p' = p" if "lru_gen_deletion L p lv = Inr (False, p', lv')" for p' lv'
    using that by (auto simp add: lru_gen_deletion_eq [OF assms] Let_def split: if_splits)
  let ?q = "snd (page_inc_usage L e p)"
  from assms have u: "LRU_USAGE_PGOFF L + LRU_USAGE_WIDTH L < 64"
    and aw: "\<not> bit (LRU_USAGE_MASK L) (PG_active L)" "\<not> bit (BIT (PG_active L)) (PG_workingset L)"
    and a64: "PG_active L < 64"
    and gw: "\<not> bit (LRU_GEN_MASK L) (PG_workingset L)"
    by (simp_all add: layout_ok_def bit_or_iff)
  from aw(2) a64 have "PG_active L \<noteq> PG_workingset L" by (auto simp: bit_BIT)
  with u aw(1) have act: "bit (flags ?q) (PG_active L) = bit (flags p) (PG_active L)"
    by (rule page_inc_usage_other_bits)
  have gen: "flags ?q AND LRU_GEN_MASK L = flags p AND LRU_GEN_MASK L"
  proof (rule bit_word_eqI)
    fix n
    show "bit (flags ?q AND LRU_GEN_MASK L) n = bit (flags p AND LRU_GEN_MASK L) n"
    proof (cases "bit (LRU_GEN_MASK L) n")
      case True
      with assms have "\<not> bit (LRU_USAGE_MASK L) n" using mask_disjoint by blast
      moreover from True gw have "n \<noteq> PG_workingset L" by blast
      ultimately have "bit (flags ?q) n = bit (flags p) n"
        using u by (intro page_inc_usage_other_bits)
      then show ?thesis by (simp only: bit_and_iff)
    next
      case False
      then show ?thesis by (simp only: bit_and_iff) simp
    qed
  qed
  from act have 5: "PageActive L ?q = PageActive L p" by (simp only: PageActive_def)
  from gen 5 have 6: "gen_excludes_active L p \<longrightarrow> gen_excludes_active L ?q"
    by (simp only: gen_excludes_active_def) simp
  from 1 2 3 4 gen 5 6 show ?thesis by blast
qed

theorem gen_excludes_active_preserved_witness:
  "layout_ok L0 \<and> gen_excludes_active L0 page_tracked \<and>
   gen_excludes_active L0 (snd (page_inc_usage L0 True page_tracked)) \<and>
   (\<exists>p' lv'. lru_gen_addition L0 page_active lv0 True = Inr (True, p', lv') \<and>
      flags p' AND LRU_GEN_MASK L0 \<noteq> 0 \<and> \<not> PageActive L0 p') \<and>
   (\<exists>p' lv'. lru_gen_deletion L0 page_tracked lv0 = Inr (True, p', lv') \<and>
      flags p' AND LRU_GEN_MASK L0 = 0) \<and>
   (\<exists>p' lv'. lru_gen_addition L0 page_unevictable lv0 True = Inr (False, p', lv') \<and>
      p' = page_unevictable) \<and>
   (\<exists>p' lv'. lru_gen_deletion L0 page_file lv0 = Inr (False, p', lv') \<and> p' = page_file)"
proof -
  have nz: "max_seq (evictable lv0) \<noteq> 0" by (simp add: lv0_facts)
  have inv: "gen_excludes_active L0 page_tracked"
    by (simp add: gen_excludes_active_def page_tracked_facts)
  have "\<not> PageUnevictable L0 page_active" "flags page_active AND LRU_GEN_MASK L0 = 0"
    by code_simp+
  with L0_ok lv0_facts(1) nz
  obtain p1 lv1 where add: "lru_gen_addition L0 page_active lv0 True = Inr (True, p1, lv1)"
    using lru_gen_addition_accepts by blast
  have "MAX_NR_GENS L0 = 4" by (simp add: L0_def)
  then have "flags_lru_gen L0 (flags page_tracked) < int (MAX_NR_GENS L0)"
    by (simp add: page_tracked_facts)
  with nz obtain p2 lv2 where del: "lru_gen_deletion L0 page_tracked lv0 = Inr (True, p2, lv2)"
    using lru_gen_deletion_accepts [OF L0_ok page_tracked_facts(3,2,1)] by blast
  have "PageUnevictable L0 page_unevictable" by code_simp
  then have rej: "lru_gen_addition L0 page_unevictable lv0 True = Inr (False, page_unevictable, lv0)"
    by (simp add: lru_gen_addition_def Let_def)
  have rej2: "lru_gen_deletion L0 page_file lv0 = Inr (False, page_file, lv0)"
    by (simp add: lru_gen_deletion_def Let_def page_file_facts)
  from gen_excludes_active_preserved
         [OF L0_ok, where p = page_active and lv = lv0 and front = True and e = True] add
  have a: "flags p1 AND LRU_GEN_MASK L0 \<noteq> 0 \<and> \<not> PageActive L0 p1" by blast
  from gen_excludes_active_preserved
         [OF L0_ok, where p = page_tracked and lv = lv0 and front = True and e = True] del inv
  have b: "flags p2 AND LRU_GEN_MASK L0 = 0 \<and>
           gen_excludes_active L0 (snd (page_inc_usage L0 True page_tracked))" by blast
  from L0_ok inv a b add del rej rej2 show ?thesis by blast
qed

text \<open>
  C7. With the generations enabled \<open>page_inc_usage\<close> returns true. On a page whose
  workingset bit is clear it sets that bit and nothing else, so the usage field keeps its
  value. On a page whose workingset bit is set it adds one to the usage field unless the
  field holds its maximum \<open>2 ^ LRU_USAGE_WIDTH - 1\<close>, which it keeps, and it changes no bit
  outside the field. The usage field never exceeds that maximum.
\<close>

theorem page_inc_usage_saturates:
  assumes "layout_ok L"
  shows "fst (page_inc_usage L True p) = True \<and>
     (\<not> PageWorkingset L p \<longrightarrow>
        flags (snd (page_inc_usage L True p)) = flags p OR BIT (PG_workingset L) \<and>
        PageWorkingset L (snd (page_inc_usage L True p)) \<and>
        flags_usage L (flags (snd (page_inc_usage L True p))) = flags_usage L (flags p)) \<and>
     (PageWorkingset L p \<longrightarrow>
        flags_usage L (flags (snd (page_inc_usage L True p))) =
          min (flags_usage L (flags p) + 1) (2 ^ LRU_USAGE_WIDTH L - 1) \<and>
        (\<forall>n. \<not> bit (LRU_USAGE_MASK L) n \<longrightarrow>
           bit (flags (snd (page_inc_usage L True p))) n = bit (flags p) n)) \<and>
     flags_usage L (flags (snd (page_inc_usage L True p))) \<le> 2 ^ LRU_USAGE_WIDTH L - 1 \<and>
     snd (page_inc_usage L True p) = p\<lparr>flags := flags (snd (page_inc_usage L True p))\<rparr>"
proof -
  let ?q = "snd (page_inc_usage L True p)"
  from assms have u: "LRU_USAGE_PGOFF L + LRU_USAGE_WIDTH L < 64"
    and ws: "PG_workingset L < 64" "\<not> bit (LRU_USAGE_MASK L) (PG_workingset L)"
    by (simp_all add: layout_ok_def bit_or_iff)
  from page_inc_usage_enabled [OF u, of p]
  obtain y where y: "take_bit (LRU_USAGE_WIDTH L) y = y"
    "unat y = min (flags_usage L (flags p) + 1) (2 ^ LRU_USAGE_WIDTH L - 1)"
    and r: "page_inc_usage L True p =
               (True, p\<lparr>flags := (if \<not> bit (flags p) (PG_workingset L)
                                    then flags p OR BIT (PG_workingset L)
                                    else (flags p AND NOT (LRU_USAGE_MASK L)) OR
                                         push_bit (LRU_USAGE_PGOFF L) y)\<rparr>)"
    by blast
  have 1: "fst (page_inc_usage L True p) = True" by (simp add: r)
  have 2: "flags ?q = flags p OR BIT (PG_workingset L) \<and> PageWorkingset L ?q \<and>
           flags_usage L (flags ?q) = flags_usage L (flags p)" if "\<not> PageWorkingset L p"
  proof -
    from that have f: "flags ?q = flags p OR BIT (PG_workingset L)"
      by (simp add: r PageWorkingset_def)
    from ws(1) have "PageWorkingset L ?q"
      by (simp add: PageWorkingset_def f bit_or_iff bit_BIT)
    moreover have "flags_usage L (flags ?q) = flags_usage L (flags p)"
      unfolding f using ws(2) by (rule or_BIT_usage)
    ultimately show ?thesis using f by blast
  qed
  have 3: "flags_usage L (flags ?q) = min (flags_usage L (flags p) + 1) (2 ^ LRU_USAGE_WIDTH L - 1) \<and>
           (\<forall>n. \<not> bit (LRU_USAGE_MASK L) n \<longrightarrow> bit (flags ?q) n = bit (flags p) n)"
    if "PageWorkingset L p"
  proof -
    from that have f: "flags ?q = (flags p AND NOT (LRU_USAGE_MASK L)) OR
                                  push_bit (LRU_USAGE_PGOFF L) y"
      by (simp add: r PageWorkingset_def)
    have "drop_bit (LRU_USAGE_PGOFF L) (flags ?q AND LRU_USAGE_MASK L) = y"
      unfolding f using u y(1) by (rule usage_field_write)
    then have a: "flags_usage L (flags ?q) = min (flags_usage L (flags p) + 1) (2 ^ LRU_USAGE_WIDTH L - 1)"
      by (simp only: flags_usage_def y(2))
    have "bit (flags ?q) n = bit (flags p) n" if n: "\<not> bit (LRU_USAGE_MASK L) n" for n
    proof -
      have "\<not> bit (push_bit (LRU_USAGE_PGOFF L) y) n"
        using usage_field_in_mask [OF u y(1), of n] n by blast
      with n show ?thesis
        by (auto simp add: f bit_or_iff bit_and_iff bit_not_iff dest: bit_imp_le_length)
    qed
    with a show ?thesis by blast
  qed
  have 4: "flags_usage L (flags ?q) \<le> 2 ^ LRU_USAGE_WIDTH L - 1"
    using u by (rule flags_usage_bound)
  have 5: "?q = p\<lparr>flags := flags ?q\<rparr>" by (simp add: r)
  from 1 2 3 4 5 show ?thesis by blast
qed

theorem page_inc_usage_saturates_witness:
  "layout_ok L0 \<and> \<not> PageWorkingset L0 page_file \<and>
   PageWorkingset L0 (snd (page_inc_usage L0 True page_file)) \<and>
   flags_usage L0 (flags (snd (page_inc_usage L0 True (snd (page_inc_usage L0 True page_file)))))
     = 1 \<and>
   PageWorkingset L0 page_hot \<and> flags_usage L0 (flags page_hot) = 3 \<and>
   flags_usage L0 (flags (snd (page_inc_usage L0 True page_hot))) = 3"
proof -
  let ?q = "snd (page_inc_usage L0 True page_file)"
  have w: "LRU_USAGE_WIDTH L0 = 2" by (simp add: L0_def)
  have u0: "flags_usage L0 (flags page_file) = 0" by code_simp
  have h: "PageWorkingset L0 page_hot" "flags_usage L0 (flags page_hot) = 3" by code_simp+
  from page_inc_usage_saturates [OF L0_ok, of page_file] page_file_facts(5)
  have a: "PageWorkingset L0 ?q"
    and "flags_usage L0 (flags ?q) = flags_usage L0 (flags page_file)"
    by blast+
  then have b: "flags_usage L0 (flags ?q) = 0" by (simp only: u0)
  from page_inc_usage_saturates [OF L0_ok, of ?q] a
  have "flags_usage L0 (flags (snd (page_inc_usage L0 True ?q))) =
          min (flags_usage L0 (flags ?q) + 1) (2 ^ LRU_USAGE_WIDTH L0 - 1)" by blast
  then have c: "flags_usage L0 (flags (snd (page_inc_usage L0 True ?q))) = 1"
    by (simp add: b w)
  from page_inc_usage_saturates [OF L0_ok, of page_hot] h(1)
  have "flags_usage L0 (flags (snd (page_inc_usage L0 True page_hot))) =
          min (flags_usage L0 (flags page_hot) + 1) (2 ^ LRU_USAGE_WIDTH L0 - 1)" by blast
  then have d: "flags_usage L0 (flags (snd (page_inc_usage L0 True page_hot))) = 3"
    by (simp add: h(2) w)
  from L0_ok page_file_facts(5) a c h d show ?thesis by blast
qed

text \<open>
  C4. With the generations disabled \<open>page_inc_usage\<close> returns whether the page is active
  and leaves the page as it is: it performs no operation on the page.
\<close>

theorem page_inc_usage_disabled:
  "page_inc_usage L False p = (PageActive L p, p)"
  by (simp add: page_inc_usage_def)

text \<open>
  C4, as stated, asks for the page to be marked active. An inactive page is still inactive
  after the call.
\<close>

theorem page_inc_usage_disabled_counterexample:
  "\<not> PageActive L0 page_file \<and>
   snd (page_inc_usage L0 False page_file) = page_file \<and>
   \<not> PageActive L0 (snd (page_inc_usage L0 False page_file))"
  by (simp add: page_inc_usage_def page_file_facts)

text \<open>
  C3. Neither \<open>lru_gen_addition\<close> nor \<open>lru_gen_deletion\<close> stops on the assertion of
  \<open>lru_gen_update_size\<close> that the old and the new generation are not both -1, or on its
  assertion that no active generation becomes an inactive one. When \<open>lru_gen_update_size\<close>
  moves a page from an inactive generation to an active one, it returns and has called
  \<open>update_lru_size\<close> twice: with minus the number of pages for the inactive list, then with
  the number of pages for the active list of the same type and zone.
\<close>

theorem lru_gen_update_size_assertions:
  assumes "layout_ok L"
  shows "lru_gen_addition L p lv front \<noteq> Inl BUG_both_untracked \<and>
         lru_gen_addition L p lv front \<noteq> Inl BUG_active_to_inactive \<and>
         lru_gen_deletion L p lv \<noteq> Inl BUG_both_untracked \<and>
         lru_gen_deletion L p lv \<noteq> Inl BUG_active_to_inactive \<and>
         (0 \<le> old_gen \<and> 0 \<le> new_gen \<and>
          lru_gen_is_active L lv old_gen = Inr False \<and>
          lru_gen_is_active L lv new_gen = Inr True \<longrightarrow>
          (\<exists>lv'. lru_gen_update_size L p lv old_gen new_gen = Inr lv' \<and>
             lru_size_updates lv' = lru_size_updates lv @
               [(LRU_FILE L * page_is_file_lru L p, page_zonenum p, - thp_nr_pages p),
                (LRU_FILE L * page_is_file_lru L p + LRU_ACTIVE L, page_zonenum p,
                 thp_nr_pages p)]))"
proof -
  have 1: "lru_gen_addition L p lv front \<noteq> Inl BUG_both_untracked"
    "lru_gen_addition L p lv front \<noteq> Inl BUG_active_to_inactive"
    by (simp_all add: lru_gen_addition_eq [OF assms] Let_def)
  have 2: "lru_gen_deletion L p lv \<noteq> Inl BUG_both_untracked"
    "lru_gen_deletion L p lv \<noteq> Inl BUG_active_to_inactive"
    by (simp_all add: lru_gen_deletion_eq [OF assms] Let_def)
  have 3: "\<exists>lv'. lru_gen_update_size L p lv old_gen new_gen = Inr lv' \<and>
             lru_size_updates lv' = lru_size_updates lv @
               [(LRU_FILE L * page_is_file_lru L p, page_zonenum p, - thp_nr_pages p),
                (LRU_FILE L * page_is_file_lru L p + LRU_ACTIVE L, page_zonenum p,
                 thp_nr_pages p)]"
    if h: "0 \<le> old_gen \<and> 0 \<le> new_gen \<and> lru_gen_is_active L lv old_gen = Inr False \<and>
           lru_gen_is_active L lv new_gen = Inr True"
  proof -
    from h have r: "old_gen < int (MAX_NR_GENS L)" "new_gen < int (MAX_NR_GENS L)"
      by (auto simp: lru_gen_is_active_def Let_def split: if_splits)
    with h show ?thesis
      by (simp add: lru_gen_update_size_def Let_def lru_gen_is_active_sizes_add
          update_lru_size_def lru_size_updates_sizes_add)
  qed
  from 1 2 3 show ?thesis by blast
qed

theorem lru_gen_update_size_assertions_witness:
  "layout_ok L0 \<and>
   lru_gen_is_active L0 lv0 2 = Inr False \<and> lru_gen_is_active L0 lv0 1 = Inr True \<and>
   (\<exists>lv'. lru_gen_update_size L0 page_file lv0 2 1 = Inr lv' \<and>
      lru_size_updates lv' = [(2, 1, - 1), (3, 1, 1)]) \<and>
   lru_gen_addition L0 page_file lv0 True \<noteq> Inl BUG_both_untracked \<and>
   lru_gen_deletion L0 page_tracked lv0 \<noteq> Inl BUG_active_to_inactive"
proof -
  have n: "MAX_NR_GENS L0 = 4" "LRU_FILE L0 = 2" "LRU_ACTIVE L0 = 1" by (simp_all add: L0_def)
  have a: "lru_gen_is_active L0 lv0 2 = Inr False" "lru_gen_is_active L0 lv0 1 = Inr True"
    by (simp_all add: lru_gen_is_active_def Let_def lv0_facts n lru_gen_from_seq_def)
  from lru_gen_update_size_assertions
         [OF L0_ok, where p = page_file and lv = lv0 and old_gen = 2 and new_gen = 1
          and front = True] a
  have b: "\<exists>lv'. lru_gen_update_size L0 page_file lv0 2 1 = Inr lv' \<and>
      lru_size_updates lv' = [(2, 1, - 1), (3, 1, 1)]"
    by (simp add: page_file_facts lv0_facts n)
  from lru_gen_update_size_assertions
         [OF L0_ok, where p = page_file and lv = lv0 and front = True]
  have c: "lru_gen_addition L0 page_file lv0 True \<noteq> Inl BUG_both_untracked" by blast
  from lru_gen_update_size_assertions
         [OF L0_ok, where p = page_tracked and lv = lv0]
  have d: "lru_gen_deletion L0 page_tracked lv0 \<noteq> Inl BUG_active_to_inactive" by blast
  from L0_ok a b c d show ?thesis by blast
qed

end
